theory Spec2Isabelle
  imports Main "HOL-Library.AList"
begin

section \<open>Strings and cell values\<close>

text \<open>
  Python strings are modelled as \<open>string\<close>, restricted to code points below 256.
  \<open>py_isspace\<close> is \<open>str.isspace\<close> on that range: the characters \<open>str.strip()\<close>
  removes.
\<close>

definition py_isspace :: "char \<Rightarrow> bool" where
  "py_isspace c =
     (let n = (of_char c :: nat)
      in (9 \<le> n \<and> n \<le> 13) \<or> (28 \<le> n \<and> n \<le> 32) \<or> n = 133 \<or> n = 160)"

definition strip_by :: "(char \<Rightarrow> bool) \<Rightarrow> string \<Rightarrow> string" where
  "strip_by P s = rev (dropWhile P (rev (dropWhile P s)))"

text \<open>\<open>s.strip()\<close>\<close>

definition py_strip :: "string \<Rightarrow> string" where
  "py_strip s = strip_by py_isspace s"

text \<open>\<open>s.strip(chars)\<close>\<close>

definition py_strip_chars :: "string \<Rightarrow> string \<Rightarrow> string" where
  "py_strip_chars chars s = strip_by (\<lambda>c. c \<in> set chars) s"

text \<open>The argument of \<open>.strip('",; ')\<close> in \<open>extract_fields\<close>.\<close>

definition quote_sep_chars :: string where
  "quote_sep_chars = [CHR 0x22, CHR '','', CHR '';'', CHR '' '']"

text \<open>
  A value that reaches \<open>clean_str\<close>: \<open>None\<close>, a float NaN, or anything else, given by
  its \<open>str(v)\<close>.
\<close>

datatype cell = NoneV | NaN | Val string

definition clean_str :: "cell \<Rightarrow> string option" where
  "clean_str v =
     (case v of
        NoneV \<Rightarrow> None
      | NaN \<Rightarrow> None
      | Val t \<Rightarrow> (let s = py_strip t in if s \<noteq> [] then Some s else None))"

text \<open>
  A Python \<open>dict\<close> is an association list with distinct keys in insertion order;
  \<open>d[k] = v\<close> is \<open>AList.update\<close>, \<open>d.get(k)\<close> is \<open>py_get\<close>.
\<close>

type_synonym fields = "(string \<times> string) list"

definition py_get :: "fields \<Rightarrow> string \<Rightarrow> cell" where
  "py_get d k = (case map_of d k of None \<Rightarrow> NoneV | Some s \<Rightarrow> Val s)"

text \<open>Decimal rendering of a non-negative integer, as the f-string does.\<close>

definition digit_char :: "nat \<Rightarrow> char" where
  "digit_char d = char_of (48 + d)"

fun str_nat :: "nat \<Rightarrow> string" where
  "str_nat n = (if n < 10 then [digit_char n] else str_nat (n div 10) @ [digit_char (n mod 10)])"

declare str_nat.simps [simp del]

section \<open>Field extraction\<close>

text \<open>
  \<open>re.search\<close> belongs to Python's library and is a parameter of the model. A search
  raises \<open>re.error\<close>, finds nothing, or returns a match object; \<open>m.group("value")\<close> on
  the match object raises \<open>IndexError\<close> when the pattern has no group of that name,
  returns \<open>None\<close> when the group took no part in the match, and the captured text
  otherwise.
\<close>

datatype re_flag = NOFLAG | IGNORECASE

datatype group_value = NoSuchGroup | Unset | Captured string

datatype search = ReError | NoMatch | Match group_value

datatype error = PatternError | IndexError | AttributeError

type_synonym matcher = "string \<Rightarrow> string \<Rightarrow> re_flag \<Rightarrow> search"

text \<open>The loop \<open>for pat in patterns\<close>; the result is \<open>value_found\<close>.\<close>

fun try_patterns :: "matcher \<Rightarrow> string \<Rightarrow> string list \<Rightarrow> error + string option" where
  "try_patterns re_search text [] = Inr None"
| "try_patterns re_search text (pat # pats) =
     (case re_search pat text IGNORECASE of
        ReError \<Rightarrow> Inl PatternError
      | NoMatch \<Rightarrow> try_patterns re_search text pats
      | Match NoSuchGroup \<Rightarrow> Inl IndexError
      | Match Unset \<Rightarrow> Inl AttributeError
      | Match (Captured raw) \<Rightarrow>
          (let val = py_strip_chars quote_sep_chars (py_strip raw)
           in if val \<noteq> [] then Inr (Some val) else try_patterns re_search text pats))"

text \<open>
  A field's configuration is its \<open>patterns\<close> entry, if it has one;
  \<open>field_cfg.get("patterns", [])\<close> is \<open>patterns_of\<close>.
\<close>

type_synonym field_cfg = "string list option"

definition patterns_of :: "field_cfg \<Rightarrow> string list" where
  "patterns_of c = (case c of None \<Rightarrow> [] | Some ps \<Rightarrow> ps)"

text \<open>The loop over the fields of one group; the accumulator is \<open>group_out\<close>.\<close>

fun extract_group ::
  "matcher \<Rightarrow> string \<Rightarrow> (string \<times> field_cfg) list \<Rightarrow> fields \<Rightarrow> error + fields" where
  "extract_group re_search text [] group_out = Inr group_out"
| "extract_group re_search text ((field_name, cfg) # rest) group_out =
     (case try_patterns re_search text (patterns_of cfg) of
        Inl e \<Rightarrow> Inl e
      | Inr value_found \<Rightarrow>
          extract_group re_search text rest
            (case value_found of
               None \<Rightarrow> group_out
             | Some v \<Rightarrow> if v \<noteq> [] then AList.update field_name v group_out else group_out))"

type_synonym field_patterns = "(string \<times> (string \<times> field_cfg) list) list"

text \<open>The loop over the groups; the accumulator is \<open>result\<close>.\<close>

fun extract_groups ::
  "matcher \<Rightarrow> string \<Rightarrow> field_patterns \<Rightarrow> (string \<times> fields) list \<Rightarrow>
   error + (string \<times> fields) list" where
  "extract_groups re_search text [] result = Inr result"
| "extract_groups re_search text ((group_name, group_cfg) # rest) result =
     (case extract_group re_search text group_cfg [] of
        Inl e \<Rightarrow> Inl e
      | Inr group_out \<Rightarrow>
          extract_groups re_search text rest (AList.update group_name group_out result))"

text \<open>The rule set loaded from \<open>relation_rules.yml\<close>, with the defaults applied.\<close>

record rules =
  RECORD_LABEL :: string
  RECORD_ID_PREFIX :: string
  FIELD_PATTERNS :: field_patterns
  LOCATION_REL_MAP :: "(string \<times> string) list"

definition SOURCE_NAME :: string where
  "SOURCE_NAME = ''descriptions_only.xlsx''"

definition extract_fields ::
  "rules \<Rightarrow> matcher \<Rightarrow> string \<Rightarrow> error + (string \<times> fields) list" where
  "extract_fields R re_search text =
     extract_groups re_search text (FIELD_PATTERNS R)
       [(''person'', []), (''organization'', [])]"

text \<open>\<open>fields.get(group, {})\<close>\<close>

definition get_group :: "(string \<times> fields) list \<Rightarrow> string \<Rightarrow> fields" where
  "get_group fs g = (case map_of fs g of None \<Rightarrow> [] | Some d \<Rightarrow> d)"

section \<open>The graph store\<close>

text \<open>
  A property graph: nodes carry labels and properties, relationships a type and
  properties. A node's identity is its position in \<open>nodes\<close>; nothing is ever deleted.
  An absent property is \<open>null\<close>, and \<open>SET n.k = null\<close> removes it. \<open>datetime()\<close> is the
  time of the statement: the \<open>k\<close>-th statement the store executes runs at time \<open>clk k\<close>,
  and \<open>writes\<close> counts the statements executed so far.
\<close>

datatype val = Str string | Num int | DateTime nat

type_synonym propmap = "string \<Rightarrow> val option"

record node =
  labels :: "string list"
  props :: propmap

record edge =
  src :: nat
  dst :: nat
  rtype :: string
  eprops :: propmap

record store =
  nodes :: "node list"
  edges :: "edge list"
  writes :: nat

type_synonym clock = "nat \<Rightarrow> nat"

definition empty_store :: store where
  "empty_store = \<lparr>nodes = [], edges = [], writes = 0\<rparr>"

text \<open>A \<open>SET\<close> list: each item assigns the value of an expression over the element's properties.\<close>

type_synonym assignment = "string \<times> (propmap \<Rightarrow> val option)"

definition apply_sets :: "assignment list \<Rightarrow> propmap \<Rightarrow> propmap" where
  "apply_sets sets m = fold (\<lambda>(k, e) m. m(k := e m)) sets m"

definition coalesce :: "val option \<Rightarrow> val option \<Rightarrow> val option" where
  "coalesce a b = (case a of Some x \<Rightarrow> Some x | None \<Rightarrow> b)"

text \<open>The node pattern \<open>(n:L1:L2 {k1: v1, k2: v2})\<close>.\<close>

definition node_matches :: "string list \<Rightarrow> (string \<times> val) list \<Rightarrow> node \<Rightarrow> bool" where
  "node_matches ls kvs n =
     (list_all (\<lambda>l. l \<in> set (labels n)) ls \<and> list_all (\<lambda>(k, v). props n k = Some v) kvs)"

definition match_ids :: "string list \<Rightarrow> (string \<times> val) list \<Rightarrow> store \<Rightarrow> nat list" where
  "match_ids ls kvs st =
     filter (\<lambda>i. node_matches ls kvs (nodes st ! i)) [0..<length (nodes st)]"

text \<open>\<open>MERGE (n:Labels {key}) ON CREATE SET ... ON MATCH SET ...\<close>\<close>

definition merge_node ::
  "string list \<Rightarrow> (string \<times> val) list \<Rightarrow> assignment list \<Rightarrow> assignment list \<Rightarrow>
   store \<Rightarrow> store" where
  "merge_node ls kvs on_create on_match st =
     (if list_ex (node_matches ls kvs) (nodes st)
      then st\<lparr>nodes :=
             map (\<lambda>n. if node_matches ls kvs n
                      then n\<lparr>props := apply_sets on_match (props n)\<rparr> else n)
               (nodes st)\<rparr>
      else st\<lparr>nodes :=
             nodes st @ [\<lparr>labels = ls, props = apply_sets on_create (map_of kvs)\<rparr>]\<rparr>)"

definition edge_matches :: "nat \<Rightarrow> nat \<Rightarrow> string \<Rightarrow> edge \<Rightarrow> bool" where
  "edge_matches a b t e = (src e = a \<and> dst e = b \<and> rtype e = t)"

text \<open>\<open>MERGE (a)-[r:T]->(b) ON CREATE SET ... ON MATCH SET ...\<close> for bound \<open>a\<close> and \<open>b\<close>.\<close>

definition merge_rel ::
  "string \<Rightarrow> assignment list \<Rightarrow> assignment list \<Rightarrow> nat \<times> nat \<Rightarrow> store \<Rightarrow> store" where
  "merge_rel t on_create on_match ab st =
     (case ab of (a, b) \<Rightarrow>
        if list_ex (edge_matches a b t) (edges st)
        then st\<lparr>edges :=
               map (\<lambda>e. if edge_matches a b t e
                        then e\<lparr>eprops := apply_sets on_match (eprops e)\<rparr> else e)
                 (edges st)\<rparr>
        else st\<lparr>edges :=
               edges st @
               [\<lparr>src = a, dst = b, rtype = t, eprops = apply_sets on_create Map.empty\<rparr>]\<rparr>)"

text \<open>
  \<open>MATCH (a ...) MATCH (b ...) MERGE (a)-[r:T]->(b) ...\<close>: the merge runs once for
  every pair of matched nodes.
\<close>

definition match_merge_rel ::
  "string list \<Rightarrow> (string \<times> val) list \<Rightarrow> string list \<Rightarrow> (string \<times> val) list \<Rightarrow>
   string \<Rightarrow> assignment list \<Rightarrow> assignment list \<Rightarrow> store \<Rightarrow> store" where
  "match_merge_rel ls1 kvs1 ls2 kvs2 t on_create on_match st =
     fold (merge_rel t on_create on_match)
       (List.product (match_ids ls1 kvs1 st) (match_ids ls2 kvs2 st)) st"

text \<open>\<open>write(cypher, params)\<close>: one statement, executed at the store's current time.\<close>

definition write_stmt :: "clock \<Rightarrow> (nat \<Rightarrow> store \<Rightarrow> store) \<Rightarrow> store \<Rightarrow> store" where
  "write_stmt clk stmt st = (stmt (clk (writes st)) st)\<lparr>writes := Suc (writes st)\<rparr>"

text \<open>The uniqueness constraints that \<open>ensure_schema\<close> declares.\<close>

definition record_key :: "rules \<Rightarrow> node \<Rightarrow> val option" where
  "record_key R n = (if RECORD_LABEL R \<in> set (labels n) then props n ''record_id'' else None)"

definition record_id_unique :: "rules \<Rightarrow> store \<Rightarrow> bool" where
  "record_id_unique R st = distinct (List.map_filter (record_key R) (nodes st))"

definition entity_key :: "node \<Rightarrow> (val \<times> val) option" where
  "entity_key n =
     (if ''Entity'' \<in> set (labels n)
      then (case props n ''entity_type'' of
              None \<Rightarrow> None
            | Some t \<Rightarrow> (case props n ''canonical_text'' of None \<Rightarrow> None | Some c \<Rightarrow> Some (t, c)))
      else None)"

definition entity_unique :: "store \<Rightarrow> bool" where
  "entity_unique st = distinct (List.map_filter entity_key (nodes st))"

section \<open>Graph upserts\<close>

definition upsert_record :: "rules \<Rightarrow> clock \<Rightarrow> string \<Rightarrow> nat \<Rightarrow> string \<Rightarrow> store \<Rightarrow> store" where
  "upsert_record R clk record_id row_index description =
     write_stmt clk (\<lambda>now.
       merge_node [RECORD_LABEL R] [(''record_id'', Str record_id)]
         [(''description'', \<lambda>_. Some (Str description)),
          (''row_index'', \<lambda>_. Some (Num (int row_index))),
          (''source_file'', \<lambda>_. Some (Str SOURCE_NAME)),
          (''created_at'', \<lambda>_. Some (DateTime now)),
          (''updated_at'', \<lambda>_. Some (DateTime now))]
         [(''description'', \<lambda>_. Some (Str description)),
          (''updated_at'', \<lambda>_. Some (DateTime now))])"

text \<open>The attributes of a person besides \<open>name\<close>, in the order of the statement.\<close>

definition person_attrs :: "string list" where
  "person_attrs =
     [''dob'', ''citizenship'', ''place_of_birth'', ''phone_number'', ''address'',
      ''passport_number'', ''flight_number'', ''departure_location'', ''arrival_location'',
      ''arrest_location'', ''arrival_date'', ''departure_date'', ''date_generic'', ''money'',
      ''license_plate'', ''drivers_license'']"

text \<open>The query parameter \<open>$k\<close>: \<open>clean_str(fields.get(k))\<close>.\<close>

definition param :: "fields \<Rightarrow> string \<Rightarrow> val option" where
  "param fs k = map_option Str (clean_str (py_get fs k))"

definition upsert_person :: "clock \<Rightarrow> fields \<Rightarrow> store \<Rightarrow> string option \<times> store" where
  "upsert_person clk person_fields st =
     (case clean_str (py_get person_fields ''name'') of
        None \<Rightarrow> (None, st)
      | Some name \<Rightarrow>
          if name = [] then (None, st)
          else (Some name,
            write_stmt clk (\<lambda>now.
              merge_node [''Entity'', ''Person'']
                [(''entity_type'', Str ''PERSON''), (''canonical_text'', Str name)]
                ((''name'', \<lambda>_. Some (Str name)) #
                 map (\<lambda>k. (k, \<lambda>_. param person_fields k)) person_attrs @
                 [(''source'', \<lambda>_. Some (Str ''structured_text'')),
                  (''created_at'', \<lambda>_. Some (DateTime now)),
                  (''updated_at'', \<lambda>_. Some (DateTime now))])
                (map (\<lambda>k. (k, \<lambda>p. coalesce (p k) (param person_fields k))) person_attrs @
                 [(''updated_at'', \<lambda>_. Some (DateTime now))])) st))"

definition upsert_organization :: "clock \<Rightarrow> fields \<Rightarrow> store \<Rightarrow> string option \<times> store" where
  "upsert_organization clk org_fields st =
     (case clean_str (py_get org_fields ''name'') of
        None \<Rightarrow> (None, st)
      | Some name \<Rightarrow>
          if name = [] then (None, st)
          else (Some name,
            write_stmt clk (\<lambda>now.
              merge_node [''Entity'', ''Organization'']
                [(''entity_type'', Str ''ORG''), (''canonical_text'', Str name)]
                [(''name'', \<lambda>_. Some (Str name)),
                 (''address'', \<lambda>_. param org_fields ''address''),
                 (''source'', \<lambda>_. Some (Str ''structured_text'')),
                 (''created_at'', \<lambda>_. Some (DateTime now)),
                 (''updated_at'', \<lambda>_. Some (DateTime now))]
                [(''address'', \<lambda>p. coalesce (p ''address'') (param org_fields ''address'')),
                 (''updated_at'', \<lambda>_. Some (DateTime now))]) st))"

definition upsert_location :: "clock \<Rightarrow> string \<Rightarrow> store \<Rightarrow> store" where
  "upsert_location clk name st =
     (if name = [] then st
      else write_stmt clk (\<lambda>now.
             merge_node [''Entity'', ''Location'']
               [(''entity_type'', Str ''GPE''), (''canonical_text'', Str name)]
               [(''name'', \<lambda>_. Some (Str name)),
                (''source'', \<lambda>_. Some (Str ''structured_text'')),
                (''created_at'', \<lambda>_. Some (DateTime now)),
                (''updated_at'', \<lambda>_. Some (DateTime now))]
               [(''updated_at'', \<lambda>_. Some (DateTime now))]) st)"

section \<open>Relationships\<close>

definition connect_record_to_person :: "rules \<Rightarrow> clock \<Rightarrow> string \<Rightarrow> string \<Rightarrow> store \<Rightarrow> store" where
  "connect_record_to_person R clk record_id person_name =
     write_stmt clk (\<lambda>now.
       match_merge_rel [RECORD_LABEL R] [(''record_id'', Str record_id)]
         [''Entity'', ''Person'']
         [(''entity_type'', Str ''PERSON''), (''canonical_text'', Str person_name)]
         ''DESCRIBES'' [] [])"

text \<open>The \<open>ON CREATE SET\<close> and \<open>ON MATCH SET\<close> lists shared by the two timestamped relationships.\<close>

definition rel_on_create :: "nat \<Rightarrow> assignment list" where
  "rel_on_create now =
     [(''source'', \<lambda>_. Some (Str ''structured_text'')),
      (''first_seen'', \<lambda>_. Some (DateTime now)),
      (''last_seen'', \<lambda>_. Some (DateTime now))]"

definition rel_on_match :: "nat \<Rightarrow> assignment list" where
  "rel_on_match now = [(''last_seen'', \<lambda>_. Some (DateTime now))]"

definition connect_person_to_org :: "clock \<Rightarrow> string \<Rightarrow> string \<Rightarrow> store \<Rightarrow> store" where
  "connect_person_to_org clk person_name org_name =
     write_stmt clk (\<lambda>now.
       match_merge_rel [''Entity'', ''Person'']
         [(''entity_type'', Str ''PERSON''), (''canonical_text'', Str person_name)]
         [''Entity'', ''Organization'']
         [(''entity_type'', Str ''ORG''), (''canonical_text'', Str org_name)]
         ''ASSOCIATED_WITH_ORG'' (rel_on_create now) (rel_on_match now))"

text \<open>
  The statement inside the loop of \<open>connect_person_to_locations\<close>. The relationship type
  is spliced into the statement text; it is taken to be a well-formed type name.
\<close>

definition connect_person_to_location :: "clock \<Rightarrow> string \<Rightarrow> string \<Rightarrow> string \<Rightarrow> store \<Rightarrow> store" where
  "connect_person_to_location clk person_name loc_name rel_type =
     write_stmt clk (\<lambda>now.
       match_merge_rel [''Entity'', ''Person'']
         [(''entity_type'', Str ''PERSON''), (''canonical_text'', Str person_name)]
         [''Entity'', ''Location'']
         [(''entity_type'', Str ''GPE''), (''canonical_text'', Str loc_name)]
         rel_type (rel_on_create now) (rel_on_match now))"

text \<open>The loop \<open>for field_key, rel_type in LOCATION_REL_MAP.items()\<close>.\<close>

fun connect_locations_loop ::
  "clock \<Rightarrow> string \<Rightarrow> fields \<Rightarrow> (string \<times> string) list \<Rightarrow> store \<Rightarrow> store" where
  "connect_locations_loop clk person_name person_fields [] st = st"
| "connect_locations_loop clk person_name person_fields ((field_key, rel_type) # rest) st =
     (case clean_str (py_get person_fields field_key) of
        None \<Rightarrow> connect_locations_loop clk person_name person_fields rest st
      | Some loc_name \<Rightarrow>
          if loc_name = [] then connect_locations_loop clk person_name person_fields rest st
          else connect_locations_loop clk person_name person_fields rest
                 (connect_person_to_location clk person_name loc_name rel_type
                    (upsert_location clk loc_name st)))"

definition connect_person_to_locations :: "rules \<Rightarrow> clock \<Rightarrow> string \<Rightarrow> fields \<Rightarrow> store \<Rightarrow> store" where
  "connect_person_to_locations R clk person_name person_fields st =
     connect_locations_loop clk person_name person_fields (LOCATION_REL_MAP R) st"

section \<open>The pipeline\<close>

text \<open>
  The relationship work of one row, after both entity upserts: the block under
  \<open>if person_name\<close>.
\<close>

definition bind_relationships ::
  "rules \<Rightarrow> clock \<Rightarrow> string \<Rightarrow> string option \<Rightarrow> string option \<Rightarrow> fields \<Rightarrow> store \<Rightarrow> store" where
  "bind_relationships R clk record_id person_name org_name person_fields st =
     (case person_name of
        None \<Rightarrow> st
      | Some pn \<Rightarrow>
          if pn = [] then st
          else
            (let st1 = connect_record_to_person R clk record_id pn st;
                 st2 = connect_person_to_locations R clk pn person_fields st1
             in case org_name of
                  None \<Rightarrow> st2
                | Some orgn \<Rightarrow> if orgn = [] then st2 else connect_person_to_org clk pn orgn st2))"

text \<open>
  The body of the loop of \<open>main\<close> for the row at index \<open>idx\<close>. An exception leaves the
  store as the statements executed before it made it, and ends the run.
\<close>

definition process_row ::
  "rules \<Rightarrow> matcher \<Rightarrow> clock \<Rightarrow> nat \<times> cell \<Rightarrow> store \<Rightarrow> store \<times> error option" where
  "process_row R re_search clk row st =
     (case row of (idx, c) \<Rightarrow>
        (case clean_str c of
           None \<Rightarrow> (st, None)
         | Some description \<Rightarrow>
             if description = [] then (st, None)
             else
               (let record_id = RECORD_ID_PREFIX R @ str_nat (idx + 1);
                    st1 = upsert_record R clk record_id (idx + 1) description st
                in case extract_fields R re_search description of
                     Inl e \<Rightarrow> (st1, Some e)
                   | Inr fs \<Rightarrow>
                       (let person_fields = get_group fs ''person'';
                            org_fields = get_group fs ''organization'';
                            (person_name, st2) =
                              (if person_fields \<noteq> [] then upsert_person clk person_fields st1
                               else (None, st1));
                            (org_name, st3) =
                              (if org_fields \<noteq> [] then upsert_organization clk org_fields st2
                               else (None, st2))
                        in (bind_relationships R clk record_id person_name org_name
                              person_fields st3, None)))))"

fun main_loop ::
  "rules \<Rightarrow> matcher \<Rightarrow> clock \<Rightarrow> (nat \<times> cell) list \<Rightarrow> store \<Rightarrow> store \<times> error option" where
  "main_loop R re_search clk [] st = (st, None)"
| "main_loop R re_search clk (row # rows) st =
     (case process_row R re_search clk row st of
        (st', Some e) \<Rightarrow> (st', Some e)
      | (st', None) \<Rightarrow> main_loop R re_search clk rows st')"

text \<open>
  \<open>load_descriptions\<close>: the sheet is read with the row index \<open>0, 1, 2, ...\<close> and the rows
  whose description is missing are dropped, the others keeping their index.
\<close>

definition load_descriptions :: "cell list \<Rightarrow> (nat \<times> cell) list" where
  "load_descriptions sheet =
     filter (\<lambda>(idx, c). c \<noteq> NoneV \<and> c \<noteq> NaN) (List.enumerate 0 sheet)"

text \<open>
  \<open>main\<close>, from the rows of the sheet to the store; declaring the constraints and the final
  read change nothing in it.
\<close>

definition main :: "rules \<Rightarrow> matcher \<Rightarrow> clock \<Rightarrow> cell list \<Rightarrow> store \<Rightarrow> store \<times> error option" where
  "main R re_search clk sheet st = main_loop R re_search clk (load_descriptions sheet) st"

section \<open>Passed-over patterns\<close>

text \<open>
  The stripped capture of a match, and the patterns the loop passes over.
\<close>

definition clean_capture :: "string \<Rightarrow> string" where
  "clean_capture raw = py_strip_chars quote_sep_chars (py_strip raw)"

definition pattern_misses :: "matcher \<Rightarrow> string \<Rightarrow> string \<Rightarrow> bool" where
  "pattern_misses re_search text pat =
     (case re_search pat text IGNORECASE of
        NoMatch \<Rightarrow> True
      | Match (Captured raw) \<Rightarrow> clean_capture raw = []
      | _ \<Rightarrow> False)"

section \<open>Statements in normal form\<close>

text \<open>
  A \<open>MERGE\<close> on a node pattern or on a relationship between two matched patterns, with
  its effect written as a function: the properties a created element gets, and on a match
  the properties overwritten (\<open>ow\<close>) and those filled by \<open>coalesce\<close> (\<open>fl\<close>), besides the
  timestamp. The upserts of the program are shown below to be such statements.
\<close>

type_synonym pattern = "string list \<times> (string \<times> val) list"

datatype stmt =
    NodeStmt pattern "nat \<Rightarrow> propmap" propmap propmap
  | RelStmt pattern pattern string "nat \<Rightarrow> propmap" bool

definition matches :: "pattern \<Rightarrow> node \<Rightarrow> bool" where
  "matches P n = node_matches (fst P) (snd P) n"

definition has_match :: "pattern \<Rightarrow> store \<Rightarrow> bool" where
  "has_match P st = list_ex (matches P) (nodes st)"

definition on_match_props :: "propmap \<Rightarrow> propmap \<Rightarrow> nat \<Rightarrow> propmap \<Rightarrow> propmap" where
  "on_match_props ow fl now m =
     (\<lambda>k. if k = ''updated_at'' then Some (DateTime now)
          else (case ow k of Some v \<Rightarrow> Some v | None \<Rightarrow> coalesce (m k) (fl k)))"

definition touch_edge :: "bool \<Rightarrow> nat \<Rightarrow> edge \<Rightarrow> edge" where
  "touch_edge touch now e =
     (if touch then e\<lparr>eprops := (eprops e)(''last_seen'' \<mapsto> DateTime now)\<rparr> else e)"

definition matched_pairs :: "pattern \<Rightarrow> pattern \<Rightarrow> store \<Rightarrow> (nat \<times> nat) list" where
  "matched_pairs P1 P2 st =
     List.product (match_ids (fst P1) (snd P1) st) (match_ids (fst P2) (snd P2) st)"

fun exec :: "stmt \<Rightarrow> nat \<Rightarrow> store \<Rightarrow> store" where
  "exec (NodeStmt P cr ow fl) now st =
     st\<lparr>nodes :=
          map (\<lambda>n. if matches P n then n\<lparr>props := on_match_props ow fl now (props n)\<rparr> else n)
            (nodes st) @
          (if has_match P st then [] else [\<lparr>labels = fst P, props = cr now\<rparr>])\<rparr>"
| "exec (RelStmt P1 P2 t cr touch) now st =
     st\<lparr>edges :=
          map (\<lambda>e. if (src e, dst e) \<in> set (matched_pairs P1 P2 st) \<and> rtype e = t
                   then touch_edge touch now e else e)
            (edges st) @
          map (\<lambda>(a, b). \<lparr>src = a, dst = b, rtype = t, eprops = cr now\<rparr>)
            (filter (\<lambda>(a, b). \<not> list_ex (edge_matches a b t) (edges st))
               (matched_pairs P1 P2 st))\<rparr>"

definition run :: "clock \<Rightarrow> stmt list \<Rightarrow> store \<Rightarrow> store" where
  "run clk ds st = fold (\<lambda>d. write_stmt clk (exec d)) ds st"

definition touched :: "string \<Rightarrow> (propmap \<Rightarrow> propmap) \<Rightarrow> (nat \<times> nat) list \<Rightarrow> edge list \<Rightarrow> edge list" where
  "touched t f pairs es =
     map (\<lambda>e. if (src e, dst e) \<in> set pairs \<and> rtype e = t then e\<lparr>eprops := f (eprops e)\<rparr> else e) es"

definition created :: "string \<Rightarrow> propmap \<Rightarrow> (nat \<times> nat) list \<Rightarrow> edge list \<Rightarrow> edge list" where
  "created t m pairs es =
     map (\<lambda>(a, b). \<lparr>src = a, dst = b, rtype = t, eprops = m\<rparr>)
       (filter (\<lambda>(a, b). \<not> list_ex (edge_matches a b t) es) pairs)"

section \<open>The statements of the program\<close>

text \<open>
  The four node patterns, the seven statements, and the statements a row and a run execute.
\<close>

definition record_pattern :: "rules \<Rightarrow> string \<Rightarrow> pattern" where
  "record_pattern R rid = ([RECORD_LABEL R], [(''record_id'', Str rid)])"

definition person_pattern :: "string \<Rightarrow> pattern" where
  "person_pattern name =
     ([''Entity'', ''Person''], [(''entity_type'', Str ''PERSON''), (''canonical_text'', Str name)])"

definition org_pattern :: "string \<Rightarrow> pattern" where
  "org_pattern name =
     ([''Entity'', ''Organization''], [(''entity_type'', Str ''ORG''), (''canonical_text'', Str name)])"

definition location_pattern :: "string \<Rightarrow> pattern" where
  "location_pattern name =
     ([''Entity'', ''Location''], [(''entity_type'', Str ''GPE''), (''canonical_text'', Str name)])"

definition record_stmt :: "rules \<Rightarrow> string \<Rightarrow> nat \<Rightarrow> string \<Rightarrow> stmt" where
  "record_stmt R record_id row_index description =
     NodeStmt (record_pattern R record_id)
       (\<lambda>now. apply_sets
          [(''description'', \<lambda>_. Some (Str description)),
           (''row_index'', \<lambda>_. Some (Num (int row_index))),
           (''source_file'', \<lambda>_. Some (Str SOURCE_NAME)),
           (''created_at'', \<lambda>_. Some (DateTime now)),
           (''updated_at'', \<lambda>_. Some (DateTime now))]
          (map_of [(''record_id'', Str record_id)]))
       [''description'' \<mapsto> Str description] Map.empty"

definition person_stmt :: "string \<Rightarrow> fields \<Rightarrow> stmt" where
  "person_stmt name person_fields =
     NodeStmt (person_pattern name)
       (\<lambda>now. apply_sets
          ((''name'', \<lambda>_. Some (Str name)) #
           map (\<lambda>k. (k, \<lambda>_. param person_fields k)) person_attrs @
           [(''source'', \<lambda>_. Some (Str ''structured_text'')),
            (''created_at'', \<lambda>_. Some (DateTime now)),
            (''updated_at'', \<lambda>_. Some (DateTime now))])
          (map_of [(''entity_type'', Str ''PERSON''), (''canonical_text'', Str name)]))
       Map.empty
       (\<lambda>k. if k \<in> set person_attrs then param person_fields k else None)"

definition org_stmt :: "string \<Rightarrow> fields \<Rightarrow> stmt" where
  "org_stmt name org_fields =
     NodeStmt (org_pattern name)
       (\<lambda>now. apply_sets
          [(''name'', \<lambda>_. Some (Str name)),
           (''address'', \<lambda>_. param org_fields ''address''),
           (''source'', \<lambda>_. Some (Str ''structured_text'')),
           (''created_at'', \<lambda>_. Some (DateTime now)),
           (''updated_at'', \<lambda>_. Some (DateTime now))]
          (map_of [(''entity_type'', Str ''ORG''), (''canonical_text'', Str name)]))
       Map.empty
       (\<lambda>k. if k = ''address'' then param org_fields ''address'' else None)"

definition location_stmt :: "string \<Rightarrow> stmt" where
  "location_stmt name =
     NodeStmt (location_pattern name)
       (\<lambda>now. apply_sets
          [(''name'', \<lambda>_. Some (Str name)),
           (''source'', \<lambda>_. Some (Str ''structured_text'')),
           (''created_at'', \<lambda>_. Some (DateTime now)),
           (''updated_at'', \<lambda>_. Some (DateTime now))]
          (map_of [(''entity_type'', Str ''GPE''), (''canonical_text'', Str name)]))
       Map.empty Map.empty"

definition describes_stmt :: "rules \<Rightarrow> string \<Rightarrow> string \<Rightarrow> stmt" where
  "describes_stmt R record_id person_name =
     RelStmt (record_pattern R record_id) (person_pattern person_name) ''DESCRIBES''
       (\<lambda>_. Map.empty) False"

definition assoc_stmt :: "string \<Rightarrow> string \<Rightarrow> stmt" where
  "assoc_stmt person_name org_name =
     RelStmt (person_pattern person_name) (org_pattern org_name) ''ASSOCIATED_WITH_ORG''
       (\<lambda>now. apply_sets (rel_on_create now) Map.empty) True"

definition located_stmt :: "string \<Rightarrow> string \<Rightarrow> string \<Rightarrow> stmt" where
  "located_stmt person_name loc_name rel_type =
     RelStmt (person_pattern person_name) (location_pattern loc_name) rel_type
       (\<lambda>now. apply_sets (rel_on_create now) Map.empty) True"

fun location_stmts :: "string \<Rightarrow> fields \<Rightarrow> (string \<times> string) list \<Rightarrow> stmt list" where
  "location_stmts person_name person_fields [] = []"
| "location_stmts person_name person_fields ((field_key, rel_type) # rest) =
     (case clean_str (py_get person_fields field_key) of
        None \<Rightarrow> location_stmts person_name person_fields rest
      | Some loc_name \<Rightarrow>
          location_stmt loc_name # located_stmt person_name loc_name rel_type #
          location_stmts person_name person_fields rest)"

definition binding_stmts :: "rules \<Rightarrow> string \<Rightarrow> string option \<Rightarrow> string option \<Rightarrow> fields \<Rightarrow> stmt list" where
  "binding_stmts R record_id person_name org_name person_fields =
     (case person_name of
        None \<Rightarrow> []
      | Some pn \<Rightarrow>
          describes_stmt R record_id pn #
          location_stmts pn person_fields (LOCATION_REL_MAP R) @
          (case org_name of None \<Rightarrow> [] | Some orgn \<Rightarrow> [assoc_stmt pn orgn]))"

definition entity_stmts :: "rules \<Rightarrow> string \<Rightarrow> fields \<Rightarrow> fields \<Rightarrow> stmt list" where
  "entity_stmts R record_id person_fields org_fields =
     (case clean_str (py_get person_fields ''name'') of
        None \<Rightarrow> [] | Some pn \<Rightarrow> [person_stmt pn person_fields]) @
     (case clean_str (py_get org_fields ''name'') of
        None \<Rightarrow> [] | Some orgn \<Rightarrow> [org_stmt orgn org_fields]) @
     binding_stmts R record_id (clean_str (py_get person_fields ''name''))
       (clean_str (py_get org_fields ''name'')) person_fields"

definition row_stmts :: "rules \<Rightarrow> matcher \<Rightarrow> nat \<times> cell \<Rightarrow> stmt list" where
  "row_stmts R re_search row =
     (case row of (idx, c) \<Rightarrow>
        (case clean_str c of
           None \<Rightarrow> []
         | Some description \<Rightarrow>
             record_stmt R (RECORD_ID_PREFIX R @ str_nat (idx + 1)) (idx + 1) description #
             (case extract_fields R re_search description of
                Inl e \<Rightarrow> []
              | Inr fs \<Rightarrow>
                  entity_stmts R (RECORD_ID_PREFIX R @ str_nat (idx + 1))
                    (get_group fs ''person'') (get_group fs ''organization''))))"

definition row_error :: "rules \<Rightarrow> matcher \<Rightarrow> nat \<times> cell \<Rightarrow> error option" where
  "row_error R re_search row =
     (case clean_str (snd row) of
        None \<Rightarrow> None
      | Some description \<Rightarrow>
          (case extract_fields R re_search description of Inl e \<Rightarrow> Some e | Inr fs \<Rightarrow> None))"

fun rows_stmts :: "rules \<Rightarrow> matcher \<Rightarrow> (nat \<times> cell) list \<Rightarrow> stmt list" where
  "rows_stmts R re_search [] = []"
| "rows_stmts R re_search (row # rows) =
     row_stmts R re_search row @
     (case row_error R re_search row of None \<Rightarrow> rows_stmts R re_search rows | Some e \<Rightarrow> [])"

fun rows_error :: "rules \<Rightarrow> matcher \<Rightarrow> (nat \<times> cell) list \<Rightarrow> error option" where
  "rows_error R re_search [] = None"
| "rows_error R re_search (row # rows) =
     (case row_error R re_search row of None \<Rightarrow> rows_error R re_search rows | Some e \<Rightarrow> Some e)"

definition record_id_of :: "rules \<Rightarrow> nat \<Rightarrow> string" where
  "record_id_of R idx = RECORD_ID_PREFIX R @ str_nat (idx + 1)"

definition program_stmt :: "rules \<Rightarrow> (nat \<times> cell) list \<Rightarrow> stmt \<Rightarrow> bool" where
  "program_stmt R rows d =
     ((\<exists>idx c description. (idx, c) \<in> set rows \<and> clean_str c = Some description \<and>
         d = record_stmt R (record_id_of R idx) (idx + 1) description) \<or>
      (\<exists>name fs. d = person_stmt name fs) \<or>
      (\<exists>name fs. d = org_stmt name fs) \<or>
      (\<exists>name. d = location_stmt name) \<or>
      (\<exists>rid name. d = describes_stmt R rid name) \<or>
      (\<exists>pn orgn. d = assoc_stmt pn orgn) \<or>
      (\<exists>pn ln t. d = located_stmt pn ln t))"

definition resolved_locations :: "fields \<Rightarrow> (string \<times> string) list \<Rightarrow> (string \<times> string) list" where
  "resolved_locations person_fields lmap =
     List.map_filter
       (\<lambda>(field_key, rel_type).
          map_option (\<lambda>loc_name. (loc_name, rel_type)) (clean_str (py_get person_fields field_key)))
       lmap"

section \<open>Saturated statements and similar stores\<close>

text \<open>
  A statement is saturated in a store when executing it can change timestamps only; two
  stores are similar when they differ in \<open>updated_at\<close> and \<open>last_seen\<close> values only.
\<close>

definition id_keys :: "string list" where
  "id_keys = [''entity_type'', ''canonical_text'', ''record_id'']"

definition pat_ok :: "rules \<Rightarrow> pattern \<Rightarrow> bool" where
  "pat_ok R P =
     ((\<exists>rid. P = record_pattern R rid) \<or> (\<exists>n. P = person_pattern n) \<or>
      (\<exists>n. P = org_pattern n) \<or> (\<exists>n. P = location_pattern n))"

fun stmt_ok :: "rules \<Rightarrow> stmt \<Rightarrow> bool" where
  "stmt_ok R (NodeStmt P cr ow fl) =
     (pat_ok R P \<and>
      (\<forall>k \<in> set (''updated_at'' # id_keys). ow k = None \<and> fl k = None) \<and>
      (\<forall>now. \<forall>k \<in> set id_keys. cr now k = map_of (snd P) k) \<and>
      (\<forall>now k. (ow k \<noteq> None \<longrightarrow> cr now k = ow k) \<and> (fl k \<noteq> None \<longrightarrow> cr now k \<noteq> None)) \<and>
      (\<forall>k. ow k \<noteq> None \<longrightarrow> k = ''description'' \<and> (\<exists>rid. P = record_pattern R rid)) \<and>
      fl ''description'' = None)"
| "stmt_ok R (RelStmt P1 P2 t cr touch) = (pat_ok R P1 \<and> pat_ok R P2)"

fun compat :: "stmt \<Rightarrow> stmt \<Rightarrow> bool" where
  "compat (NodeStmt P cr ow fl) (NodeStmt P' cr' ow' fl') = (P = P' \<longrightarrow> ow = ow')"
| "compat d d' = True"

fun sat :: "stmt \<Rightarrow> store \<Rightarrow> bool" where
  "sat (NodeStmt P cr ow fl) st =
     (has_match P st \<and>
      (\<forall>n \<in> set (nodes st). matches P n \<longrightarrow>
         (\<forall>k. (ow k \<noteq> None \<longrightarrow> props n k = ow k) \<and> (fl k \<noteq> None \<longrightarrow> props n k \<noteq> None))))"
| "sat (RelStmt P1 P2 t cr touch) st =
     (has_match P1 st \<and> has_match P2 st \<and>
      (\<forall>(a, b) \<in> set (matched_pairs P1 P2 st). list_ex (edge_matches a b t) (edges st)))"

fun ready :: "stmt \<Rightarrow> store \<Rightarrow> bool" where
  "ready (NodeStmt P cr ow fl) st = True"
| "ready (RelStmt P1 P2 t cr touch) st = (has_match P1 st \<and> has_match P2 st)"

definition node_sim :: "node \<Rightarrow> node \<Rightarrow> bool" where
  "node_sim n n' = (labels n' = labels n \<and> (\<forall>k. k \<noteq> ''updated_at'' \<longrightarrow> props n' k = props n k))"

definition edge_sim :: "edge \<Rightarrow> edge \<Rightarrow> bool" where
  "edge_sim e e' =
     (src e' = src e \<and> dst e' = dst e \<and> rtype e' = rtype e \<and>
      (\<forall>k. k \<noteq> ''last_seen'' \<longrightarrow> eprops e' k = eprops e k))"

definition store_sim :: "store \<Rightarrow> store \<Rightarrow> bool" where
  "store_sim st st' =
     (list_all2 node_sim (nodes st) (nodes st') \<and> list_all2 edge_sim (edges st) (edges st'))"

fun ordered :: "pattern list \<Rightarrow> stmt list \<Rightarrow> bool" where
  "ordered seen [] = True"
| "ordered seen (NodeStmt P cr ow fl # ds) = ordered (P # seen) ds"
| "ordered seen (RelStmt P1 P2 t cr touch # ds) =
     (P1 \<in> set seen \<and> P2 \<in> set seen \<and> ordered seen ds)"

definition num_of :: "string \<Rightarrow> nat" where
  "num_of s = foldl (\<lambda>a c. 10 * a + (of_char c - 48)) 0 s"

section \<open>Kinds of nodes, relationship upserts, the entity invariant\<close>

text \<open>
  Notions used to state the claims about persons, organizations and relationships.
\<close>

definition person_kind :: pattern where
  "person_kind = ([''Entity'', ''Person''], [(''entity_type'', Str ''PERSON'')])"

definition org_kind :: pattern where
  "org_kind = ([''Entity'', ''Organization''], [(''entity_type'', Str ''ORG'')])"

definition assoc_edge :: "store \<Rightarrow> edge \<Rightarrow> bool" where
  "assoc_edge st e =
     (rtype e = ''ASSOCIATED_WITH_ORG'' \<and> dst e < length (nodes st) \<and>
      matches org_kind (nodes st ! dst e))"



definition keyed_ok :: "node \<Rightarrow> bool" where
  "keyed_ok n =
     (case entity_key n of
        None \<Rightarrow> True
      | Some (t, c) \<Rightarrow>
          (\<exists>name. c = Str name \<and>
             (t = Str ''PERSON'' \<and> matches (person_pattern name) n \<or>
              t = Str ''ORG'' \<and> matches (org_pattern name) n \<or>
              t = Str ''GPE'' \<and> matches (location_pattern name) n)))"

definition entity_inv :: "store \<Rightarrow> bool" where
  "entity_inv st = (entity_unique st \<and> list_all keyed_ok (nodes st))"

section \<open>Example inputs\<close>

text \<open>
  A small matcher for the examples: the pattern \<open>KEY\<close> stands for the regular expression
  \<open>KEY(?P<value>[^;]*)\<close>, and \<open>#KEY\<close> for \<open>KEY\<close> with no group at all.
\<close>

definition lower_char :: "char \<Rightarrow> char" where
  "lower_char c =
     (let n = (of_char c :: nat) in if 65 \<le> n \<and> n \<le> 90 then char_of (n + 32) else c)"

fun find_key :: "string \<Rightarrow> string \<Rightarrow> nat option" where
  "find_key key [] = (if key = [] then Some 0 else None)"
| "find_key key (c # cs) =
     (if take (length key) (c # cs) = key then Some 0
      else map_option Suc (find_key key cs))"

definition ex_search :: matcher where
  "ex_search pat text fl =
     (let fold_case = (if fl = IGNORECASE then map lower_char else (\<lambda>s. s));
          grouped = (pat \<noteq> [] \<and> hd pat \<noteq> CHR ''#'');
          key = (if grouped then pat else tl pat)
      in case find_key (fold_case key) (fold_case text) of
           None \<Rightarrow> NoMatch
         | Some i \<Rightarrow>
             if grouped
             then Match (Captured (takeWhile (\<lambda>c. c \<noteq> CHR '';'') (drop (i + length key) text)))
             else Match NoSuchGroup)"

definition ex_rules :: rules where
  "ex_rules =
     \<lparr>RECORD_LABEL = ''Record'', RECORD_ID_PREFIX = ''DESC_'',
      FIELD_PATTERNS =
        [(''person'',
          [(''name'', Some [''NAME:'']),
           (''dob'', Some [''DOB:'']),
           (''departure_location'', Some [''Departure:''])]),
         (''organization'', [(''name'', Some [''Employer:''])])],
      LOCATION_REL_MAP = [(''departure_location'', ''DEPARTED_FROM'')]\<rparr>"

definition ex_clock :: clock where
  "ex_clock k = 100 + k"

text \<open>A store that holds one record.\<close>

definition ex_record_store :: store where
  "ex_record_store = upsert_record ex_rules ex_clock ''DESC_1'' 1 ''old text'' empty_store"

definition ex_person_store :: store where
  "ex_person_store =
     snd (upsert_person ex_clock [(''name'', ''Bob''), (''dob'', ''1980-01-01'')] empty_store)"

definition ex_entity_store :: store where
  "ex_entity_store =
     snd (upsert_organization ex_clock [(''name'', ''Acme''), (''address'', ''1 Main St'')]
       ex_person_store)"

definition ex_rules_nogroup :: rules where
  "ex_rules_nogroup =
     ex_rules\<lparr>FIELD_PATTERNS := [(''person'', [(''name'', Some [''Alias:'', ''#NAME:''])])]\<rparr>"

definition ex_rules_alias :: rules where
  "ex_rules_alias =
     ex_rules\<lparr>FIELD_PATTERNS := [(''person'', [(''name'', Some [''NAME:'', ''Alias:''])])]\<rparr>"

definition ex_sheet :: "cell list" where
  "ex_sheet =
     [Val ''NAME: Bob; Departure: JFK; Employer: Acme'', NaN, Val ''name: Bob; DOB: 1980'']"

definition ex_graph_store :: store where
  "ex_graph_store =
     upsert_location ex_clock ''JFK''
       (snd (upsert_organization ex_clock [(''name'', ''Acme'')]
          (snd (upsert_person ex_clock [(''name'', ''Bob'')] ex_record_store))))"

definition ex_tab_text :: string where
  "ex_tab_text = ''NAME: Bob; Departure:'' @ [CHR 0x22, CHR 0x09, CHR 0x22]"

definition ex_two_rows :: "(nat \<times> cell) list" where
  "ex_two_rows = [(0, Val ''NAME: Bob''), (1, Val ''name: Bob; DOB: 1980'')]"

section \<open>Basic facts about the store operations\<close>

lemma apply_sets_Nil: "apply_sets [] m = m"
  by (simp add: apply_sets_def)

lemma apply_sets_Cons: "apply_sets ((k, e) # sets) m = apply_sets sets (m(k := e m))"
  by (simp add: apply_sets_def)

lemma apply_sets_append: "apply_sets (xs @ ys) m = apply_sets ys (apply_sets xs m)"
  by (simp add: apply_sets_def)

lemma apply_sets_other: "k \<notin> fst ` set sets \<Longrightarrow> apply_sets sets m k = m k"
  by (induction sets arbitrary: m) (auto simp: apply_sets_Nil apply_sets_Cons)

lemma nodes_write_stmt: "nodes (write_stmt clk stmt st) = nodes (stmt (clk (writes st)) st)"
  by (simp add: write_stmt_def)

lemma edges_write_stmt: "edges (write_stmt clk stmt st) = edges (stmt (clk (writes st)) st)"
  by (simp add: write_stmt_def)

lemma writes_write_stmt: "writes (write_stmt clk stmt st) = Suc (writes st)"
  by (simp add: write_stmt_def)

lemma edges_merge_node: "edges (merge_node ls kvs oc om st) = edges st"
  by (simp add: merge_node_def)

lemma writes_merge_node: "writes (merge_node ls kvs oc om st) = writes st"
  by (simp add: merge_node_def)

lemma list_ex_nth: "i < length xs \<Longrightarrow> P (xs ! i) \<Longrightarrow> list_ex P xs"
  by (auto simp: list_ex_iff)

lemma nodes_merge_node_match:
  assumes "i < length (nodes st)" "node_matches ls kvs (nodes st ! i)"
  shows "nodes (merge_node ls kvs oc om st) =
         map (\<lambda>n. if node_matches ls kvs n then n\<lparr>props := apply_sets om (props n)\<rparr> else n)
           (nodes st)"
  using assms list_ex_nth[of i "nodes st" "node_matches ls kvs"] by (simp add: merge_node_def)

section \<open>Records\<close>

text \<open>
  C7. When \<open>upsert_record\<close> matches an existing record by \<open>record_id\<close>, it overwrites
  \<open>description\<close> and \<open>updated_at\<close> (with the time of the statement) whatever their stored
  values; every other property of the matched node, \<open>row_index\<close>, \<open>source_file\<close> and
  \<open>created_at\<close> among them, keeps its stored value, as do its labels. No node is added,
  the relationships are untouched, and the nodes that do not match are unchanged.
\<close>

theorem upsert_record_on_match:
  assumes "i < length (nodes st)"
    and "node_matches [RECORD_LABEL R] [(''record_id'', Str record_id)] (nodes st ! i)"
  shows "let st' = upsert_record R clk record_id row_index description st;
             n = nodes st ! i; n' = nodes st' ! i
         in length (nodes st') = length (nodes st) \<and> edges st' = edges st \<and>
            labels n' = labels n \<and>
            props n' ''description'' = Some (Str description) \<and>
            props n' ''updated_at'' = Some (DateTime (clk (writes st))) \<and>
            props n' ''row_index'' = props n ''row_index'' \<and>
            props n' ''source_file'' = props n ''source_file'' \<and>
            props n' ''created_at'' = props n ''created_at'' \<and>
            (\<forall>k. k \<noteq> ''description'' \<and> k \<noteq> ''updated_at'' \<longrightarrow> props n' k = props n k) \<and>
            (\<forall>j < length (nodes st).
               \<not> node_matches [RECORD_LABEL R] [(''record_id'', Str record_id)] (nodes st ! j) \<longrightarrow>
               nodes st' ! j = nodes st ! j)"
  using assms
  by (simp add: upsert_record_def Let_def nodes_write_stmt edges_write_stmt
      nodes_merge_node_match[OF assms] edges_merge_node apply_sets_Cons apply_sets_Nil)

theorem upsert_record_on_match_witness:
  "0 < length (nodes ex_record_store) \<and>
   node_matches [RECORD_LABEL ex_rules] [(''record_id'', Str ''DESC_1'')]
     (nodes ex_record_store ! 0) \<and>
   (let n' = nodes (upsert_record ex_rules ex_clock ''DESC_1'' 7 ''new text'' ex_record_store) ! 0
    in props n' ''description'' = Some (Str ''new text'') \<and>
       props n' ''updated_at'' = Some (DateTime 101) \<and>
       props n' ''row_index'' = Some (Num 1) \<and>
       props n' ''source_file'' = Some (Str SOURCE_NAME) \<and>
       props n' ''created_at'' = Some (DateTime 100))"
proof -
  have h1: "0 < length (nodes ex_record_store)"
    by code_simp
  have h2: "node_matches [RECORD_LABEL ex_rules] [(''record_id'', Str ''DESC_1'')]
              (nodes ex_record_store ! 0)"
    by code_simp
  have old: "props (nodes ex_record_store ! 0) ''row_index'' = Some (Num 1) \<and>
             props (nodes ex_record_store ! 0) ''source_file'' = Some (Str SOURCE_NAME) \<and>
             props (nodes ex_record_store ! 0) ''created_at'' = Some (DateTime 100) \<and>
             ex_clock (writes ex_record_store) = 101"
    by code_simp
  show ?thesis
    using upsert_record_on_match[OF h1 h2, of ex_clock 7 "''new text''"] h1 h2 old
    by (simp add: Let_def)
qed

section \<open>Entities\<close>

lemma coalesce_idem: "coalesce (coalesce a b) b = coalesce a b"
  by (simp add: coalesce_def split: option.splits)

lemma coalesce_Some: "a \<noteq> None \<Longrightarrow> coalesce a b = a"
  by (auto simp: coalesce_def split: option.splits)

lemma coalesce_None: "coalesce None b = b"
  by (simp add: coalesce_def)

lemma apply_sets_coalesce:
  "apply_sets (map (\<lambda>k. (k, \<lambda>p. coalesce (p k) (f k))) attrs @ rest) m =
   apply_sets rest (\<lambda>k. if k \<in> set attrs then coalesce (m k) (f k) else m k)"
proof (induction attrs arbitrary: m)
  case Nil
  show ?case by simp
next
  case (Cons a attrs)
  let ?m = "m(a := coalesce (m a) (f a))"
  have e: "(\<lambda>k. if k \<in> set attrs then coalesce (?m k) (f k) else ?m k) =
           (\<lambda>k. if k \<in> set (a # attrs) then coalesce (m k) (f k) else m k)"
    by (rule ext) (simp add: coalesce_idem)
  have "apply_sets (map (\<lambda>k. (k, \<lambda>p. coalesce (p k) (f k))) (a # attrs) @ rest) m =
        apply_sets (map (\<lambda>k. (k, \<lambda>p. coalesce (p k) (f k))) attrs @ rest) ?m"
    by (simp add: apply_sets_Cons)
  also have "\<dots> = apply_sets rest (\<lambda>k. if k \<in> set attrs then coalesce (?m k) (f k) else ?m k)"
    by (rule Cons.IH)
  also have "\<dots> = apply_sets rest (\<lambda>k. if k \<in> set (a # attrs) then coalesce (m k) (f k) else m k)"
    by (rule arg_cong[OF e])
  finally show ?case .
qed

lemma apply_sets_const:
  "apply_sets (map (\<lambda>k. (k, \<lambda>_. f k)) attrs @ rest) m =
   apply_sets rest (\<lambda>k. if k \<in> set attrs then f k else m k)"
proof (induction attrs arbitrary: m)
  case Nil
  show ?case by simp
next
  case (Cons a attrs)
  let ?m = "m(a := f a)"
  have e: "(\<lambda>k. if k \<in> set attrs then f k else ?m k) =
           (\<lambda>k. if k \<in> set (a # attrs) then f k else m k)"
    by (rule ext) simp
  have "apply_sets (map (\<lambda>k. (k, \<lambda>_. f k)) (a # attrs) @ rest) m =
        apply_sets (map (\<lambda>k. (k, \<lambda>_. f k)) attrs @ rest) ?m"
    by (simp add: apply_sets_Cons)
  also have "\<dots> = apply_sets rest (\<lambda>k. if k \<in> set attrs then f k else ?m k)"
    by (rule Cons.IH)
  also have "\<dots> = apply_sets rest (\<lambda>k. if k \<in> set (a # attrs) then f k else m k)"
    by (rule arg_cong[OF e])
  finally show ?case .
qed

lemma clean_str_nonempty: "clean_str v = Some s \<Longrightarrow> s \<noteq> []"
  by (auto simp: clean_str_def Let_def split: cell.splits if_splits)

lemma updated_at_not_attr: "''updated_at'' \<notin> set person_attrs"
  by (simp add: person_attrs_def)

lemma person_on_match:
  "apply_sets (map (\<lambda>k. (k, \<lambda>p. coalesce (p k) (f k))) person_attrs @
               [(''updated_at'', \<lambda>_. Some (DateTime now))]) m =
   (\<lambda>k. if k = ''updated_at'' then Some (DateTime now)
        else if k \<in> set person_attrs then coalesce (m k) (f k) else m k)"
  by (rule ext) (simp add: apply_sets_coalesce apply_sets_Cons apply_sets_Nil)

lemma upsert_person_resolved:
  assumes "clean_str (py_get person_fields ''name'') = Some name"
  shows "upsert_person clk person_fields st =
     (Some name,
      write_stmt clk (\<lambda>now.
        merge_node [''Entity'', ''Person'']
          [(''entity_type'', Str ''PERSON''), (''canonical_text'', Str name)]
          ((''name'', \<lambda>_. Some (Str name)) #
           map (\<lambda>k. (k, \<lambda>_. param person_fields k)) person_attrs @
           [(''source'', \<lambda>_. Some (Str ''structured_text'')),
            (''created_at'', \<lambda>_. Some (DateTime now)),
            (''updated_at'', \<lambda>_. Some (DateTime now))])
          (map (\<lambda>k. (k, \<lambda>p. coalesce (p k) (param person_fields k))) person_attrs @
           [(''updated_at'', \<lambda>_. Some (DateTime now))])) st)"
  using assms clean_str_nonempty[OF assms] by (simp add: upsert_person_def)

lemma upsert_organization_resolved:
  assumes "clean_str (py_get org_fields ''name'') = Some name"
  shows "upsert_organization clk org_fields st =
     (Some name,
      write_stmt clk (\<lambda>now.
        merge_node [''Entity'', ''Organization'']
          [(''entity_type'', Str ''ORG''), (''canonical_text'', Str name)]
          [(''name'', \<lambda>_. Some (Str name)),
           (''address'', \<lambda>_. param org_fields ''address''),
           (''source'', \<lambda>_. Some (Str ''structured_text'')),
           (''created_at'', \<lambda>_. Some (DateTime now)),
           (''updated_at'', \<lambda>_. Some (DateTime now))]
          [(''address'', \<lambda>p. coalesce (p ''address'') (param org_fields ''address'')),
           (''updated_at'', \<lambda>_. Some (DateTime now))]) st)"
  using assms clean_str_nonempty[OF assms] by (simp add: upsert_organization_def)

lemma person_match_step:
  assumes nm: "clean_str (py_get person_fields ''name'') = Some pname"
    and i: "i < length (nodes st)"
    and m: "node_matches [''Entity'', ''Person'']
              [(''entity_type'', Str ''PERSON''), (''canonical_text'', Str pname)] (nodes st ! i)"
  shows "length (nodes (snd (upsert_person clk person_fields st))) = length (nodes st)"
    and "labels (nodes (snd (upsert_person clk person_fields st)) ! i) = labels (nodes st ! i)"
    and "props (nodes (snd (upsert_person clk person_fields st)) ! i) =
         (\<lambda>k. if k = ''updated_at'' then Some (DateTime (clk (writes st)))
              else if k \<in> set person_attrs
                   then coalesce (props (nodes st ! i) k) (param person_fields k)
                   else props (nodes st ! i) k)"
  using i m
  by (simp_all add: upsert_person_resolved[OF nm] nodes_write_stmt
      nodes_merge_node_match[OF i m] person_on_match)

lemma org_match_step:
  assumes nm: "clean_str (py_get org_fields ''name'') = Some oname"
    and i: "i < length (nodes st)"
    and m: "node_matches [''Entity'', ''Organization'']
              [(''entity_type'', Str ''ORG''), (''canonical_text'', Str oname)] (nodes st ! i)"
  shows "length (nodes (snd (upsert_organization clk org_fields st))) = length (nodes st)"
    and "labels (nodes (snd (upsert_organization clk org_fields st)) ! i) = labels (nodes st ! i)"
    and "props (nodes (snd (upsert_organization clk org_fields st)) ! i) =
         (\<lambda>k. if k = ''updated_at'' then Some (DateTime (clk (writes st)))
              else if k = ''address''
                   then coalesce (props (nodes st ! i) k) (param org_fields k)
                   else props (nodes st ! i) k)"
  using i m
  by (auto simp add: upsert_organization_resolved[OF nm] nodes_write_stmt
      nodes_merge_node_match[OF i m] apply_sets_Cons apply_sets_Nil)

text \<open>
  C2. When \<open>upsert_person\<close> or \<open>upsert_organization\<close> matches an existing node by its
  identity, every property of the node other than \<open>updated_at\<close> whose stored value is not
  null keeps that value, whatever the incoming fields carry; a property changes only if it
  was null and is one of the entity's attributes, and then it receives the incoming value;
  and \<open>updated_at\<close> becomes the time of the statement.
\<close>

theorem entity_coalesce_on_match:
  "(clean_str (py_get person_fields ''name'') = Some pname \<and> i < length (nodes st) \<and>
    node_matches [''Entity'', ''Person'']
      [(''entity_type'', Str ''PERSON''), (''canonical_text'', Str pname)] (nodes st ! i) \<longrightarrow>
    (let st' = snd (upsert_person clk person_fields st); n = nodes st ! i; n' = nodes st' ! i
     in length (nodes st') = length (nodes st) \<and> labels n' = labels n \<and>
        (\<forall>k. k \<noteq> ''updated_at'' \<and> props n k \<noteq> None \<longrightarrow> props n' k = props n k) \<and>
        (\<forall>k. k \<noteq> ''updated_at'' \<and> props n' k \<noteq> props n k \<longrightarrow>
             props n k = None \<and> k \<in> set person_attrs \<and> props n' k = param person_fields k) \<and>
        props n' ''updated_at'' = Some (DateTime (clk (writes st))))) \<and>
   (clean_str (py_get org_fields ''name'') = Some oname \<and> j < length (nodes st) \<and>
    node_matches [''Entity'', ''Organization'']
      [(''entity_type'', Str ''ORG''), (''canonical_text'', Str oname)] (nodes st ! j) \<longrightarrow>
    (let st' = snd (upsert_organization clk org_fields st); n = nodes st ! j; n' = nodes st' ! j
     in length (nodes st') = length (nodes st) \<and> labels n' = labels n \<and>
        (\<forall>k. k \<noteq> ''updated_at'' \<and> props n k \<noteq> None \<longrightarrow> props n' k = props n k) \<and>
        (\<forall>k. k \<noteq> ''updated_at'' \<and> props n' k \<noteq> props n k \<longrightarrow>
             props n k = None \<and> k = ''address'' \<and> props n' k = param org_fields k) \<and>
        props n' ''updated_at'' = Some (DateTime (clk (writes st)))))"
proof (intro conjI impI)
  assume h: "clean_str (py_get person_fields ''name'') = Some pname \<and> i < length (nodes st) \<and>
    node_matches [''Entity'', ''Person'']
      [(''entity_type'', Str ''PERSON''), (''canonical_text'', Str pname)] (nodes st ! i)"
  then have nm: "clean_str (py_get person_fields ''name'') = Some pname"
    and i: "i < length (nodes st)"
    and m: "node_matches [''Entity'', ''Person'']
      [(''entity_type'', Str ''PERSON''), (''canonical_text'', Str pname)] (nodes st ! i)"
    by simp_all
  show "let st' = snd (upsert_person clk person_fields st); n = nodes st ! i; n' = nodes st' ! i
     in length (nodes st') = length (nodes st) \<and> labels n' = labels n \<and>
        (\<forall>k. k \<noteq> ''updated_at'' \<and> props n k \<noteq> None \<longrightarrow> props n' k = props n k) \<and>
        (\<forall>k. k \<noteq> ''updated_at'' \<and> props n' k \<noteq> props n k \<longrightarrow>
             props n k = None \<and> k \<in> set person_attrs \<and> props n' k = param person_fields k) \<and>
        props n' ''updated_at'' = Some (DateTime (clk (writes st)))"
    unfolding Let_def person_match_step[OF nm i m]
    by (auto simp: coalesce_def split: option.splits)
next
  assume h: "clean_str (py_get org_fields ''name'') = Some oname \<and> j < length (nodes st) \<and>
    node_matches [''Entity'', ''Organization'']
      [(''entity_type'', Str ''ORG''), (''canonical_text'', Str oname)] (nodes st ! j)"
  then have nm: "clean_str (py_get org_fields ''name'') = Some oname"
    and j: "j < length (nodes st)"
    and m: "node_matches [''Entity'', ''Organization'']
      [(''entity_type'', Str ''ORG''), (''canonical_text'', Str oname)] (nodes st ! j)"
    by simp_all
  show "let st' = snd (upsert_organization clk org_fields st); n = nodes st ! j; n' = nodes st' ! j
     in length (nodes st') = length (nodes st) \<and> labels n' = labels n \<and>
        (\<forall>k. k \<noteq> ''updated_at'' \<and> props n k \<noteq> None \<longrightarrow> props n' k = props n k) \<and>
        (\<forall>k. k \<noteq> ''updated_at'' \<and> props n' k \<noteq> props n k \<longrightarrow>
             props n k = None \<and> k = ''address'' \<and> props n' k = param org_fields k) \<and>
        props n' ''updated_at'' = Some (DateTime (clk (writes st)))"
    unfolding Let_def org_match_step[OF nm j m]
    by (auto simp: coalesce_def split: option.splits)
qed


theorem entity_coalesce_on_match_witness:
  "clean_str (py_get [(''name'', ''Bob''), (''dob'', ''1990-02-02''), (''money'', ''5'')] ''name'') =
     Some ''Bob'' \<and>
   0 < length (nodes ex_entity_store) \<and>
   node_matches [''Entity'', ''Person'']
     [(''entity_type'', Str ''PERSON''), (''canonical_text'', Str ''Bob'')]
     (nodes ex_entity_store ! 0) \<and>
   clean_str (py_get [(''name'', ''Acme''), (''address'', ''9 Side St'')] ''name'') = Some ''Acme'' \<and>
   1 < length (nodes ex_entity_store) \<and>
   node_matches [''Entity'', ''Organization'']
     [(''entity_type'', Str ''ORG''), (''canonical_text'', Str ''Acme'')]
     (nodes ex_entity_store ! 1) \<and>
   props (nodes (snd (upsert_person ex_clock
       [(''name'', ''Bob''), (''dob'', ''1990-02-02''), (''money'', ''5'')] ex_entity_store)) ! 0)
     ''dob'' = Some (Str ''1980-01-01'') \<and>
   props (nodes (snd (upsert_person ex_clock
       [(''name'', ''Bob''), (''dob'', ''1990-02-02''), (''money'', ''5'')] ex_entity_store)) ! 0)
     ''updated_at'' = Some (DateTime 102) \<and>
   props (nodes (snd (upsert_organization ex_clock
       [(''name'', ''Acme''), (''address'', ''9 Side St'')] ex_entity_store)) ! 1)
     ''address'' = Some (Str ''1 Main St'')"
proof -
  let ?pf = "[(''name'', ''Bob''), (''dob'', ''1990-02-02''), (''money'', ''5'')]"
  let ?of = "[(''name'', ''Acme''), (''address'', ''9 Side St'')]"
  have hp: "clean_str (py_get ?pf ''name'') = Some ''Bob'' \<and>
            0 < length (nodes ex_entity_store) \<and>
            node_matches [''Entity'', ''Person'']
              [(''entity_type'', Str ''PERSON''), (''canonical_text'', Str ''Bob'')]
              (nodes ex_entity_store ! 0)"
    by code_simp
  have ho: "clean_str (py_get ?of ''name'') = Some ''Acme'' \<and>
            1 < length (nodes ex_entity_store) \<and>
            node_matches [''Entity'', ''Organization'']
              [(''entity_type'', Str ''ORG''), (''canonical_text'', Str ''Acme'')]
              (nodes ex_entity_store ! 1)"
    by code_simp
  have old: "props (nodes ex_entity_store ! 0) ''dob'' = Some (Str ''1980-01-01'') \<and>
             props (nodes ex_entity_store ! 1) ''address'' = Some (Str ''1 Main St'') \<and>
             ex_clock (writes ex_entity_store) = 102"
    by code_simp
  show ?thesis
    using entity_coalesce_on_match[of ?pf "''Bob''" 0 ex_entity_store ex_clock ?of "''Acme''" 1]
      hp ho old
    by (simp add: Let_def)
qed

section \<open>Extraction\<close>

lemma try_patterns_miss:
  "pattern_misses re_search text pat \<Longrightarrow>
   try_patterns re_search text (pat # pats) = try_patterns re_search text pats"
  by (auto simp: pattern_misses_def clean_capture_def Let_def
      split: search.splits group_value.splits)

lemma try_patterns_skip:
  "list_all (pattern_misses re_search text) pre \<Longrightarrow>
   try_patterns re_search text (pre @ pats) = try_patterns re_search text pats"
  by (induction pre) (simp_all add: try_patterns_miss del: try_patterns.simps(2))

lemma try_patterns_nonempty: "try_patterns re_search text pats = Inr (Some v) \<Longrightarrow> v \<noteq> []"
  by (induction pats)
    (auto simp: Let_def split: search.splits group_value.splits if_splits)

lemma try_patterns_None:
  "try_patterns re_search text pats = Inr None \<Longrightarrow> list_all (pattern_misses re_search text) pats"
  by (induction pats)
    (auto simp: Let_def pattern_misses_def clean_capture_def
      split: search.splits group_value.splits if_splits)

lemma extract_group_other:
  "extract_group re_search text cfg acc = Inr out \<Longrightarrow> f \<notin> fst ` set cfg \<Longrightarrow>
   map_of out f = map_of acc f"
proof (induction cfg arbitrary: acc)
  case Nil
  then show ?case by simp
next
  case (Cons a cfg)
  obtain k c where a: "a = (k, c)" by (cases a)
  from Cons.prems a show ?case
    by (auto simp: update_conv' split: sum.splits option.splits if_splits
        dest!: Cons.IH)
qed

lemma extract_group_field:
  assumes "extract_group re_search text cfg acc = Inr out"
    and "distinct (map fst cfg)" and "(f, c) \<in> set cfg"
  shows "map_of out f =
     (case try_patterns re_search text (patterns_of c) of
        Inr (Some v) \<Rightarrow> Some v
      | _ \<Rightarrow> map_of acc f)"
  using assms
proof (induction cfg arbitrary: acc)
  case Nil
  then show ?case by simp
next
  case (Cons a cfg)
  obtain k c' where a: "a = (k, c')" by (cases a)
  show ?case
  proof (cases "(f, c) = a")
    case True
    then have kf: "k = f" "c' = c" using a by simp_all
    from Cons.prems(2) a kf have nf: "f \<notin> fst ` set cfg" by auto
    from Cons.prems(1) a kf nf show ?thesis
      by (auto simp: update_conv' split: sum.splits option.splits if_splits
          dest!: extract_group_other[where f = f] dest: try_patterns_nonempty)
  next
    case False
    with Cons.prems(3) have mem: "(f, c) \<in> set cfg" by simp
    from Cons.prems(2) a mem have ne: "k \<noteq> f" by force
    from Cons.prems(2) have d: "distinct (map fst cfg)" by simp
    from Cons.prems(1) a ne show ?thesis
      by (auto simp: update_conv' split: sum.splits option.splits if_splits
          dest!: Cons.IH[OF _ d mem])
  qed
qed

lemma extract_groups_other:
  "extract_groups re_search text fp res = Inr fs \<Longrightarrow> g \<notin> fst ` set fp \<Longrightarrow>
   map_of fs g = map_of res g"
proof (induction fp arbitrary: res)
  case Nil
  then show ?case by simp
next
  case (Cons a fp)
  obtain k c where a: "a = (k, c)" by (cases a)
  from Cons.prems a show ?case
    by (auto simp: update_conv' split: sum.splits dest!: Cons.IH)
qed

lemma extract_groups_group:
  assumes "extract_groups re_search text fp res = Inr fs"
    and "distinct (map fst fp)" and "(g, cfg) \<in> set fp"
  shows "\<exists>out. extract_group re_search text cfg [] = Inr out \<and> map_of fs g = Some out"
  using assms
proof (induction fp arbitrary: res)
  case Nil
  then show ?case by simp
next
  case (Cons a fp)
  obtain k c' where a: "a = (k, c')" by (cases a)
  show ?case
  proof (cases "(g, cfg) = a")
    case True
    then have kf: "k = g" "c' = cfg" using a by simp_all
    from Cons.prems(2) a kf have nf: "g \<notin> fst ` set fp" by auto
    from Cons.prems(1) a kf nf show ?thesis
      by (auto simp: update_conv' split: sum.splits
          dest!: extract_groups_other[where g = g])
  next
    case False
    with Cons.prems(3) have mem: "(g, cfg) \<in> set fp" by simp
    from Cons.prems(2) have d: "distinct (map fst fp)" by simp
    from Cons.prems(1) a show ?thesis
      by (auto split: sum.splits dest!: Cons.IH[OF _ d mem])
  qed
qed

lemma extract_group_error:
  "(f, c) \<in> set cfg \<Longrightarrow> try_patterns re_search text (patterns_of c) = Inl e \<Longrightarrow>
   \<exists>e'. extract_group re_search text cfg acc = Inl e'"
proof (induction cfg arbitrary: acc)
  case Nil
  then show ?case by simp
next
  case (Cons a cfg)
  obtain k c' where a: "a = (k, c')" by (cases a)
  from Cons.prems a Cons.IH show ?case
    by (auto split: sum.splits)
qed

lemma extract_groups_error:
  "(g, cfg) \<in> set fp \<Longrightarrow> extract_group re_search text cfg [] = Inl e \<Longrightarrow>
   \<exists>e'. extract_groups re_search text fp res = Inl e'"
proof (induction fp arbitrary: res)
  case Nil
  then show ?case by simp
next
  case (Cons a fp)
  obtain k c' where a: "a = (k, c')" by (cases a)
  from Cons.prems a Cons.IH show ?case
    by (auto split: sum.splits)
qed


lemma try_patterns_hit:
  assumes "list_all (pattern_misses re_search text) pre"
    and "re_search pat text IGNORECASE = Match (Captured raw)"
    and "clean_capture raw \<noteq> []"
  shows "try_patterns re_search text (pre @ pat # post) = Inr (Some (clean_capture raw))"
  using assms by (simp add: try_patterns_skip clean_capture_def Let_def)

text \<open>
  C4, as amended. The patterns of a field are tried in declared order, each searched with
  \<open>IGNORECASE\<close>. A pattern that does not match, or whose capture is empty once trimmed and
  stripped of quote and separator characters, is passed over; the first pattern whose
  stripped capture is not empty wins, and that stripped capture is the value stored for the
  field. The patterns after it are not evaluated: the result does not depend on them, nor
  on what a search with them would do.
\<close>

theorem first_productive_pattern_wins:
  assumes "extract_fields R re_search text = Inr fs"
    and "distinct (map fst (FIELD_PATTERNS R))" and "(g, cfg) \<in> set (FIELD_PATTERNS R)"
    and "distinct (map fst cfg)" and "(f, c) \<in> set cfg"
    and "patterns_of c = pre @ pat # post"
    and "list_all (pattern_misses re_search text) pre"
    and "re_search pat text IGNORECASE = Match (Captured raw)"
    and "clean_capture raw \<noteq> []"
  shows "map_of (get_group fs g) f = Some (clean_capture raw) \<and>
         (\<forall>re' post'.
            (\<forall>q \<in> set (pre @ [pat]). re' q text IGNORECASE = re_search q text IGNORECASE) \<longrightarrow>
            try_patterns re' text (pre @ pat # post') = Inr (Some (clean_capture raw)))"
proof
  from extract_groups_group[OF assms(1)[unfolded extract_fields_def] assms(2,3)]
  obtain out where out: "extract_group re_search text cfg [] = Inr out"
    and fs: "map_of fs g = Some out"
    by blast
  have "try_patterns re_search text (patterns_of c) = Inr (Some (clean_capture raw))"
    using try_patterns_hit[OF assms(7,8,9)] assms(6) by simp
  with extract_group_field[OF out assms(4,5)] fs
  show "map_of (get_group fs g) f = Some (clean_capture raw)"
    by (simp add: get_group_def)
next
  show "\<forall>re' post'.
          (\<forall>q \<in> set (pre @ [pat]). re' q text IGNORECASE = re_search q text IGNORECASE) \<longrightarrow>
          try_patterns re' text (pre @ pat # post') = Inr (Some (clean_capture raw))"
  proof (intro allI impI)
    fix re' post'
    assume agree: "\<forall>q \<in> set (pre @ [pat]). re' q text IGNORECASE = re_search q text IGNORECASE"
    then have "list_all (pattern_misses re' text) pre"
      using assms(7) by (auto simp: list_all_iff pattern_misses_def)
    moreover from agree assms(8) have "re' pat text IGNORECASE = Match (Captured raw)"
      by simp
    ultimately show "try_patterns re' text (pre @ pat # post') = Inr (Some (clean_capture raw))"
      using assms(9) by (rule try_patterns_hit)
  qed
qed

theorem first_productive_pattern_wins_witness:
  "extract_fields ex_rules_alias ex_search ''NAME: Ann; Alias: Bob'' =
     Inr [(''person'', [(''name'', ''Ann'')]), (''organization'', [])] \<and>
   ex_search ''NAME:'' ''NAME: Ann; Alias: Bob'' IGNORECASE = Match (Captured '' Ann'') \<and>
   ex_search ''Alias:'' ''NAME: Ann; Alias: Bob'' IGNORECASE = Match (Captured '' Bob'') \<and>
   map_of (get_group [(''person'', [(''name'', ''Ann'')]), (''organization'', [])] ''person'')
     ''name'' = Some (clean_capture '' Ann'')"
proof -
  let ?t = "''NAME: Ann; Alias: Bob''"
  let ?fs = "[(''person'', [(''name'', ''Ann'')]), (''organization'', [])]"
  let ?cfg = "[(''name'', Some [''NAME:'', ''Alias:''])]"
  have h1: "extract_fields ex_rules_alias ex_search ?t = Inr ?fs"
    by code_simp
  have h2: "distinct (map fst (FIELD_PATTERNS ex_rules_alias))"
    by code_simp
  have h3: "(''person'', ?cfg) \<in> set (FIELD_PATTERNS ex_rules_alias)"
    by code_simp
  have h4: "distinct (map fst ?cfg)"
    by simp
  have h5: "(''name'', Some [''NAME:'', ''Alias:'']) \<in> set ?cfg"
    by simp
  have h6: "patterns_of (Some [''NAME:'', ''Alias:'']) = [] @ ''NAME:'' # [''Alias:'']"
    by (simp add: patterns_of_def)
  have h7: "list_all (pattern_misses ex_search ?t) []"
    by simp
  have h8: "ex_search ''NAME:'' ?t IGNORECASE = Match (Captured '' Ann'')"
    by code_simp
  have h9: "clean_capture '' Ann'' \<noteq> []"
    by code_simp
  have h10: "ex_search ''Alias:'' ?t IGNORECASE = Match (Captured '' Bob'')"
    by code_simp
  show ?thesis
    using first_productive_pattern_wins[OF h1 h2 h3 h4 h5 h6 h7 h8 h9] h1 h8 h10
    by simp
qed

text \<open>
  C4 as stated fails: both patterns match the text and capture different substrings, the
  first-listed capture is a single space, which is empty once trimmed, and the value
  stored is the capture of the second pattern.
\<close>

theorem first_match_wins_counterexample:
  "ex_search ''NAME:'' ''NAME: ; Alias: Bob'' IGNORECASE = Match (Captured '' '') \<and>
   ex_search ''Alias:'' ''NAME: ; Alias: Bob'' IGNORECASE = Match (Captured '' Bob'') \<and>
   extract_fields ex_rules_alias ex_search ''NAME: ; Alias: Bob'' =
     Inr [(''person'', [(''name'', ''Bob'')]), (''organization'', [])] \<and>
   clean_capture '' '' \<noteq> ''Bob''"
  by code_simp

text \<open>
  C10. A pattern that matches the text but has no group named \<open>value\<close> makes the extraction
  raise \<open>IndexError\<close> as soon as it is reached, that is, when every pattern before it in
  the field's list was passed over; an error in one field's list makes \<open>extract_fields\<close>
  raise. A field is absent without an error only when every pattern of its list that
  matches carries the group.
\<close>

theorem missing_value_group_raises:
  "(list_all (pattern_misses re_search text) pre \<and>
    re_search pat text IGNORECASE = Match NoSuchGroup \<longrightarrow>
      try_patterns re_search text (pre @ pat # post) = Inl IndexError) \<and>
   ((g, cfg) \<in> set (FIELD_PATTERNS R) \<and> (f, c) \<in> set cfg \<and>
    try_patterns re_search text (patterns_of c) = Inl e \<longrightarrow>
      (\<exists>e'. extract_fields R re_search text = Inl e')) \<and>
   (try_patterns re_search text pats = Inr None \<longrightarrow>
      (\<forall>p \<in> set pats. \<forall>gv. re_search p text IGNORECASE = Match gv \<longrightarrow>
         (\<exists>raw. gv = Captured raw)))"
proof (intro conjI impI)
  assume "list_all (pattern_misses re_search text) pre \<and>
          re_search pat text IGNORECASE = Match NoSuchGroup"
  then show "try_patterns re_search text (pre @ pat # post) = Inl IndexError"
    by (simp add: try_patterns_skip)
next
  assume h: "(g, cfg) \<in> set (FIELD_PATTERNS R) \<and> (f, c) \<in> set cfg \<and>
             try_patterns re_search text (patterns_of c) = Inl e"
  then obtain e1 where "extract_group re_search text cfg [] = Inl e1"
    using extract_group_error by blast
  with h show "\<exists>e'. extract_fields R re_search text = Inl e'"
    unfolding extract_fields_def using extract_groups_error by blast
next
  assume "try_patterns re_search text pats = Inr None"
  then have "list_all (pattern_misses re_search text) pats"
    by (rule try_patterns_None)
  then have m: "\<And>p. p \<in> set pats \<Longrightarrow> pattern_misses re_search text p"
    by (simp add: list_all_iff)
  show "\<forall>p \<in> set pats. \<forall>gv. re_search p text IGNORECASE = Match gv \<longrightarrow>
               (\<exists>raw. gv = Captured raw)"
  proof (intro ballI allI impI)
    fix p gv
    assume "p \<in> set pats" and "re_search p text IGNORECASE = Match gv"
    with m[of p] show "\<exists>raw. gv = Captured raw"
      by (cases gv) (simp_all add: pattern_misses_def)
  qed
qed

theorem missing_value_group_raises_witness:
  "list_all (pattern_misses ex_search ''NAME: Bob'') [''Alias:''] \<and>
   ex_search ''#NAME:'' ''NAME: Bob'' IGNORECASE = Match NoSuchGroup \<and>
   try_patterns ex_search ''NAME: Bob'' ([''Alias:''] @ ''#NAME:'' # []) = Inl IndexError \<and>
   (''person'', [(''name'', Some [''Alias:'', ''#NAME:''])]) \<in>
     set (FIELD_PATTERNS ex_rules_nogroup) \<and>
   (\<exists>e'. extract_fields ex_rules_nogroup ex_search ''NAME: Bob'' = Inl e') \<and>
   try_patterns ex_search ''NAME: Bob'' [''Alias:''] = Inr None \<and>
   ex_search ''Alias:'' ''NAME: Bob'' IGNORECASE \<noteq> Match NoSuchGroup"
proof -
  let ?t = "''NAME: Bob''"
  let ?cfg = "[(''name'', Some [''Alias:'', ''#NAME:''])]"
  have h1: "list_all (pattern_misses ex_search ?t) [''Alias:'']"
    by code_simp
  have h2: "ex_search ''#NAME:'' ?t IGNORECASE = Match NoSuchGroup"
    by code_simp
  have h3: "(''person'', ?cfg) \<in> set (FIELD_PATTERNS ex_rules_nogroup)"
    by code_simp
  have h4: "(''name'', Some [''Alias:'', ''#NAME:'']) \<in> set ?cfg"
    by simp
  have h5: "try_patterns ex_search ?t (patterns_of (Some [''Alias:'', ''#NAME:''])) = Inl IndexError"
    by code_simp
  have h6: "try_patterns ex_search ?t [''Alias:''] = Inr None"
    by code_simp
  show ?thesis
    using missing_value_group_raises[of ex_search ?t "[''Alias:'']" "''#NAME:''" "[]"
        "''person''" ?cfg ex_rules_nogroup "''name''" "Some [''Alias:'', ''#NAME:'']"
        IndexError "[''Alias:'']"]
      h1 h2 h3 h4 h5 h6
    by auto
qed

section \<open>Statements in normal form\<close>

lemma matches_pair: "matches (ls, kvs) = node_matches ls kvs"
  by (rule ext) (simp add: matches_def)

lemma merge_node_exec:
  assumes "\<And>m. apply_sets om m = on_match_props ow fl now m"
    and "cr now = apply_sets oc (map_of kvs)"
  shows "merge_node ls kvs oc om st = exec (NodeStmt (ls, kvs) cr ow fl) now st"
proof (cases "list_ex (node_matches ls kvs) (nodes st)")
  case True
  then show ?thesis
    by (simp add: merge_node_def matches_pair has_match_def assms)
next
  case False
  then have "map (\<lambda>n. if node_matches ls kvs n
                      then n\<lparr>props := on_match_props ow fl now (props n)\<rparr> else n) (nodes st) =
             nodes st"
    by (auto simp: list_ex_iff intro: map_idI)
  with False show ?thesis
    by (simp add: merge_node_def matches_pair has_match_def assms(2))
qed

lemma merge_rel_nodes [simp]: "nodes (merge_rel t oc om ab st) = nodes st"
  by (cases ab) (simp add: merge_rel_def)

lemma merge_rel_writes [simp]: "writes (merge_rel t oc om ab st) = writes st"
  by (cases ab) (simp add: merge_rel_def)

lemma fold_merge_rel_nodes [simp]: "nodes (fold (merge_rel t oc om) pairs st) = nodes st"
  by (induction pairs arbitrary: st) simp_all

lemma fold_merge_rel_writes [simp]: "writes (fold (merge_rel t oc om) pairs st) = writes st"
  by (induction pairs arbitrary: st) simp_all

lemma list_ex_touched [simp]:
  "list_ex (edge_matches a b t') (touched t f pairs es) = list_ex (edge_matches a b t') es"
  by (induction es) (auto simp: touched_def edge_matches_def)

lemma created_touched [simp]: "created t' m ps (touched t f pairs es) = created t' m ps es"
  by (simp add: created_def)

lemma touched_Nil [simp]: "touched t f [] es = es"
  by (simp add: touched_def map_idI)

lemma created_Nil [simp]: "created t m [] es = []"
  by (simp add: created_def)

lemma fold_merge_rel_edges:
  "distinct pairs \<Longrightarrow>
   edges (fold (merge_rel t oc om) pairs st) =
   touched t (apply_sets om) pairs (edges st) @ created t (apply_sets oc Map.empty) pairs (edges st)"
proof (induction pairs arbitrary: st)
  case Nil
  show ?case by simp
next
  case (Cons p pairs)
  obtain a b where p: "p = (a, b)" by (cases p)
  from Cons.prems have notin: "(a, b) \<notin> set pairs" and d: "distinct pairs"
    using p by simp_all
  let ?st1 = "merge_rel t oc om (a, b) st"
  have IH: "edges (fold (merge_rel t oc om) pairs ?st1) =
            touched t (apply_sets om) pairs (edges ?st1) @
            created t (apply_sets oc Map.empty) pairs (edges ?st1)"
    by (rule Cons.IH[OF d])
  show ?case
  proof (cases "list_ex (edge_matches a b t) (edges st)")
    case True
    then have e1: "edges ?st1 = touched t (apply_sets om) [(a, b)] (edges st)"
      by (simp add: merge_rel_def touched_def edge_matches_def)
    have t2: "touched t (apply_sets om) pairs (touched t (apply_sets om) [(a, b)] (edges st)) =
              touched t (apply_sets om) ((a, b) # pairs) (edges st)"
      using notin by (auto simp: touched_def)
    have c2: "created t (apply_sets oc Map.empty) ((a, b) # pairs) (edges st) =
              created t (apply_sets oc Map.empty) pairs (edges st)"
      using True by (simp add: created_def)
    show ?thesis
      using IH by (simp add: p e1 t2 c2)
  next
    case False
    let ?ne = "\<lparr>src = a, dst = b, rtype = t, eprops = apply_sets oc Map.empty\<rparr>"
    from False have e1: "edges ?st1 = edges st @ [?ne]"
      by (simp add: merge_rel_def)
    have t1: "touched t (apply_sets om) pairs (edges st @ [?ne]) =
              touched t (apply_sets om) pairs (edges st) @ [?ne]"
      using notin by (simp add: touched_def)
    have t2: "touched t (apply_sets om) ((a, b) # pairs) (edges st) =
              touched t (apply_sets om) pairs (edges st)"
      using False by (auto simp: touched_def list_ex_iff edge_matches_def)
    have "filter (\<lambda>(a', b'). \<not> list_ex (edge_matches a' b' t) (edges st @ [?ne])) pairs =
          filter (\<lambda>(a', b'). \<not> list_ex (edge_matches a' b' t) (edges st)) pairs"
      using notin by (intro filter_cong refl) (auto simp: edge_matches_def)
    then have c1: "created t (apply_sets oc Map.empty) pairs (edges st @ [?ne]) =
              created t (apply_sets oc Map.empty) pairs (edges st)"
      by (simp add: created_def)
    have c2: "created t (apply_sets oc Map.empty) ((a, b) # pairs) (edges st) =
              ?ne # created t (apply_sets oc Map.empty) pairs (edges st)"
      using False by (simp add: created_def)
    show ?thesis
      using IH by (simp add: p e1 t1 t2 c1 c2)
  qed
qed

lemma distinct_match_ids: "distinct (match_ids ls kvs st)"
  by (simp add: match_ids_def)

lemma match_merge_rel_exec:
  assumes "\<And>m. apply_sets om m = (if touch then m(''last_seen'' \<mapsto> DateTime now) else m)"
    and "cr now = apply_sets oc Map.empty"
  shows "match_merge_rel ls1 kvs1 ls2 kvs2 t oc om st =
         exec (RelStmt (ls1, kvs1) (ls2, kvs2) t cr touch) now st"
proof -
  let ?pairs = "List.product (match_ids ls1 kvs1 st) (match_ids ls2 kvs2 st)"
  have d: "distinct ?pairs"
    by (simp add: distinct_product distinct_match_ids)
  have f: "apply_sets om = (\<lambda>m. if touch then m(''last_seen'' \<mapsto> DateTime now) else m)"
    by (rule ext) (rule assms)
  have "match_merge_rel ls1 kvs1 ls2 kvs2 t oc om st =
        st\<lparr>edges := edges (fold (merge_rel t oc om) ?pairs st)\<rparr>"
    by (simp add: match_merge_rel_def)
  also have "\<dots> = exec (RelStmt (ls1, kvs1) (ls2, kvs2) t cr touch) now st"
    unfolding fold_merge_rel_edges[OF d] f
    by (simp add: touched_def created_def matched_pairs_def touch_edge_def assms(2) cong: if_cong)
  finally show ?thesis .
qed

section \<open>The program's statements\<close>

lemma coalesce_None_right: "coalesce a None = a"
  by (simp add: coalesce_def split: option.splits)

lemma write_stmt_cong:
  "(\<And>now. f now st = g now st) \<Longrightarrow> write_stmt clk f st = write_stmt clk g st"
  by (simp add: write_stmt_def)

lemma upsert_record_stmt:
  "upsert_record R clk record_id row_index description st =
   write_stmt clk (exec (record_stmt R record_id row_index description)) st"
  unfolding upsert_record_def record_stmt_def record_pattern_def
  by (rule write_stmt_cong, rule merge_node_exec)
    (auto simp: apply_sets_Cons apply_sets_Nil on_match_props_def coalesce_None_right)

lemma upsert_person_stmt:
  assumes "clean_str (py_get person_fields ''name'') = Some name"
  shows "upsert_person clk person_fields st =
         (Some name, write_stmt clk (exec (person_stmt name person_fields)) st)"
  unfolding upsert_person_resolved[OF assms] person_stmt_def person_pattern_def
  by (simp, rule write_stmt_cong, rule merge_node_exec)
    (auto simp: person_on_match on_match_props_def coalesce_None_right)

lemma upsert_organization_stmt:
  assumes "clean_str (py_get org_fields ''name'') = Some name"
  shows "upsert_organization clk org_fields st =
         (Some name, write_stmt clk (exec (org_stmt name org_fields)) st)"
  unfolding upsert_organization_resolved[OF assms] org_stmt_def org_pattern_def
  by (simp, rule write_stmt_cong, rule merge_node_exec)
    (auto simp: apply_sets_Cons apply_sets_Nil on_match_props_def coalesce_None_right)

lemma upsert_location_stmt:
  "name \<noteq> [] \<Longrightarrow>
   upsert_location clk name st = write_stmt clk (exec (location_stmt name)) st"
  unfolding upsert_location_def location_stmt_def location_pattern_def
  by (simp, rule write_stmt_cong, rule merge_node_exec)
    (auto simp: apply_sets_Cons apply_sets_Nil on_match_props_def coalesce_None_right)

lemma connect_record_to_person_stmt:
  "connect_record_to_person R clk record_id person_name st =
   write_stmt clk (exec (describes_stmt R record_id person_name)) st"
  unfolding connect_record_to_person_def describes_stmt_def record_pattern_def person_pattern_def
  by (rule write_stmt_cong, rule match_merge_rel_exec) (simp_all add: apply_sets_Nil)

lemma connect_person_to_org_stmt:
  "connect_person_to_org clk person_name org_name st =
   write_stmt clk (exec (assoc_stmt person_name org_name)) st"
  unfolding connect_person_to_org_def assoc_stmt_def org_pattern_def person_pattern_def
  by (rule write_stmt_cong, rule match_merge_rel_exec)
    (simp_all add: rel_on_match_def apply_sets_Cons apply_sets_Nil)

lemma connect_person_to_location_stmt:
  "connect_person_to_location clk person_name loc_name rel_type st =
   write_stmt clk (exec (located_stmt person_name loc_name rel_type)) st"
  unfolding connect_person_to_location_def located_stmt_def location_pattern_def person_pattern_def
  by (rule write_stmt_cong, rule match_merge_rel_exec)
    (simp_all add: rel_on_match_def apply_sets_Cons apply_sets_Nil)

section \<open>The pipeline as a list of statements\<close>

lemma run_Nil [simp]: "run clk [] st = st"
  by (simp add: run_def)

lemma run_Cons [simp]: "run clk (d # ds) st = run clk ds (write_stmt clk (exec d) st)"
  by (simp add: run_def)

lemma run_append [simp]: "run clk (xs @ ys) st = run clk ys (run clk xs st)"
  by (simp add: run_def)

lemma py_get_Nil [simp]: "py_get [] k = NoneV"
  by (simp add: py_get_def)

lemma clean_str_NoneV [simp]: "clean_str NoneV = None"
  by (simp add: clean_str_def)

lemma connect_locations_loop_run:
  "connect_locations_loop clk pn pf lmap st = run clk (location_stmts pn pf lmap) st"
proof (induction lmap arbitrary: st)
  case Nil
  show ?case by simp
next
  case (Cons a lmap)
  obtain field_key rel_type where a: "a = (field_key, rel_type)" by (cases a)
  show ?case
  proof (cases "clean_str (py_get pf field_key)")
    case None
    then show ?thesis by (simp add: a Cons.IH)
  next
    case (Some loc)
    then have ne: "loc \<noteq> []" by (rule clean_str_nonempty)
    with Some show ?thesis
      by (simp add: a Cons.IH upsert_location_stmt connect_person_to_location_stmt)
  qed
qed

lemma bind_relationships_run:
  assumes "person_name = clean_str c1" and "org_name = clean_str c2"
  shows "bind_relationships R clk record_id person_name org_name person_fields st =
         run clk (binding_stmts R record_id person_name org_name person_fields) st"
proof (cases person_name)
  case None
  then show ?thesis by (simp add: bind_relationships_def binding_stmts_def)
next
  case (Some pn)
  with assms have pn: "pn \<noteq> []" by (metis clean_str_nonempty)
  show ?thesis
  proof (cases org_name)
    case None
    with Some pn show ?thesis
      by (simp add: bind_relationships_def binding_stmts_def Let_def
          connect_record_to_person_stmt connect_person_to_locations_def
          connect_locations_loop_run)
  next
    case (Some orgn)
    with assms have "orgn \<noteq> []" by (metis clean_str_nonempty)
    with Some \<open>person_name = Some pn\<close> pn show ?thesis
      by (simp add: bind_relationships_def binding_stmts_def Let_def
          connect_record_to_person_stmt connect_person_to_locations_def
          connect_locations_loop_run connect_person_to_org_stmt)
  qed
qed

lemma upsert_person_run:
  "(if person_fields \<noteq> [] then upsert_person clk person_fields st else (None, st)) =
   (clean_str (py_get person_fields ''name''),
    run clk (case clean_str (py_get person_fields ''name'') of
               None \<Rightarrow> [] | Some pn \<Rightarrow> [person_stmt pn person_fields]) st)"
proof (cases "clean_str (py_get person_fields ''name'')")
  case None
  then show ?thesis by (auto simp: upsert_person_def)
next
  case (Some pn)
  then have "person_fields \<noteq> []" by auto
  with Some show ?thesis by (simp add: upsert_person_stmt)
qed

lemma upsert_organization_run:
  "(if org_fields \<noteq> [] then upsert_organization clk org_fields st else (None, st)) =
   (clean_str (py_get org_fields ''name''),
    run clk (case clean_str (py_get org_fields ''name'') of
               None \<Rightarrow> [] | Some orgn \<Rightarrow> [org_stmt orgn org_fields]) st)"
proof (cases "clean_str (py_get org_fields ''name'')")
  case None
  then show ?thesis by (auto simp: upsert_organization_def)
next
  case (Some orgn)
  then have "org_fields \<noteq> []" by auto
  with Some show ?thesis by (simp add: upsert_organization_stmt)
qed

lemma process_row_run:
  "process_row R re_search clk row st =
   (run clk (row_stmts R re_search row) st, row_error R re_search row)"
proof -
  obtain idx c where row: "row = (idx, c)" by (cases row)
  show ?thesis
  proof (cases "clean_str c")
    case None
    then show ?thesis by (simp add: row process_row_def row_stmts_def row_error_def)
  next
    case (Some d)
    then have d: "d \<noteq> []" by (rule clean_str_nonempty)
    show ?thesis
    proof (cases "extract_fields R re_search d")
      case (Inl e)
      with Some d show ?thesis
        by (simp add: row process_row_def row_stmts_def row_error_def Let_def
            upsert_record_stmt)
    next
      case (Inr fs)
      with Some d show ?thesis
        by (simp add: row process_row_def row_stmts_def row_error_def Let_def
            upsert_record_stmt upsert_person_run upsert_organization_run entity_stmts_def
            bind_relationships_run[OF refl refl])
    qed
  qed
qed

lemma main_loop_run:
  "main_loop R re_search clk rows st =
   (run clk (rows_stmts R re_search rows) st, rows_error R re_search rows)"
  by (induction rows arbitrary: st) (auto simp: process_row_run split: option.splits)

section \<open>How a statement changes the store\<close>

lemma exec_node_edges [simp]: "edges (exec (NodeStmt P cr ow fl) now st) = edges st"
  by simp

lemma exec_rel_nodes [simp]: "nodes (exec (RelStmt P1 P2 t cr touch) now st) = nodes st"
  by simp

lemma exec_writes [simp]: "writes (exec d now st) = writes st"
  by (cases d) simp_all

lemma exec_node_length:
  "length (nodes (exec (NodeStmt P cr ow fl) now st)) =
   length (nodes st) + (if has_match P st then 0 else 1)"
  by simp

lemma exec_node_nth:
  "i < length (nodes st) \<Longrightarrow>
   nodes (exec (NodeStmt P cr ow fl) now st) ! i =
   (if matches P (nodes st ! i)
    then (nodes st ! i)\<lparr>props := on_match_props ow fl now (props (nodes st ! i))\<rparr>
    else nodes st ! i)"
  by (simp add: nth_append)

lemma exec_node_new:
  "\<not> has_match P st \<Longrightarrow>
   nodes (exec (NodeStmt P cr ow fl) now st) = nodes st @ [\<lparr>labels = fst P, props = cr now\<rparr>]"
  by (auto simp: has_match_def list_ex_iff intro: map_idI)

lemma exec_length_mono: "length (nodes st) \<le> length (nodes (exec d now st))"
  by (cases d) simp_all

lemma matches_cong:
  "labels n' = labels n \<Longrightarrow> (\<And>k. k \<in> fst ` set (snd P) \<Longrightarrow> props n' k = props n k) \<Longrightarrow>
   matches P n' = matches P n"
proof -
  assume l: "labels n' = labels n"
    and p: "\<And>k. k \<in> fst ` set (snd P) \<Longrightarrow> props n' k = props n k"
  have "\<And>k v. (k, v) \<in> set (snd P) \<Longrightarrow> props n' k = props n k"
    using p by force
  then have "list_all (\<lambda>(k, v). props n' k = Some v) (snd P) =
             list_all (\<lambda>(k, v). props n k = Some v) (snd P)"
    by (auto simp: list_all_iff)
  with l show ?thesis
    by (simp add: matches_def node_matches_def)
qed

lemma pat_ok_keys: "pat_ok R P \<Longrightarrow> fst ` set (snd P) \<subseteq> set id_keys"
  by (auto simp: pat_ok_def record_pattern_def person_pattern_def org_pattern_def
      location_pattern_def id_keys_def)

lemma on_match_props_keep:
  "ow k = None \<Longrightarrow> fl k = None \<Longrightarrow> k \<noteq> ''updated_at'' \<Longrightarrow> on_match_props ow fl now m k = m k"
  by (simp add: on_match_props_def coalesce_None_right)

lemma exec_labels:
  "i < length (nodes st) \<Longrightarrow> labels (nodes (exec d now st) ! i) = labels (nodes st ! i)"
  by (cases d) (simp_all add: nth_append)

lemma exec_id_props:
  assumes "stmt_ok R d" and "i < length (nodes st)" and "k \<in> set id_keys"
  shows "props (nodes (exec d now st) ! i) k = props (nodes st ! i) k"
proof (cases d)
  case (NodeStmt P cr ow fl)
  from assms(1,3) NodeStmt have "ow k = None" "fl k = None" and "k \<noteq> ''updated_at''"
    by (auto simp: id_keys_def)
  then show ?thesis
    using assms(2) NodeStmt by (simp add: exec_node_nth on_match_props_keep del: exec.simps)
next
  case (RelStmt P1 P2 t cr touch)
  then show ?thesis by simp
qed

lemma exec_matches_old:
  assumes "stmt_ok R d" and "pat_ok R P" and "i < length (nodes st)"
  shows "matches P (nodes (exec d now st) ! i) = matches P (nodes st ! i)"
proof (rule matches_cong)
  show "labels (nodes (exec d now st) ! i) = labels (nodes st ! i)"
    using assms(3) by (rule exec_labels)
next
  fix k
  assume "k \<in> fst ` set (snd P)"
  with pat_ok_keys[OF assms(2)] have "k \<in> set id_keys" by blast
  with assms(1,3) show "props (nodes (exec d now st) ! i) k = props (nodes st ! i) k"
    by (rule exec_id_props)
qed

lemma has_match_nth: "has_match P st = (\<exists>i < length (nodes st). matches P (nodes st ! i))"
  by (simp add: has_match_def list_ex_length)

lemma exec_has_match:
  assumes "stmt_ok R d" and "pat_ok R P" and "has_match P st"
  shows "has_match P (exec d now st)"
proof -
  from assms(3) obtain i where i: "i < length (nodes st)" "matches P (nodes st ! i)"
    by (auto simp: has_match_nth)
  with exec_matches_old[OF assms(1,2) i(1), of now] exec_length_mono[of st d now]
  show ?thesis
    unfolding has_match_nth by (metis less_le_trans)
qed

lemma pattern_of_new_node:
  assumes "pat_ok R P" and "pat_ok R P'"
    and "\<And>k. k \<in> set id_keys \<Longrightarrow> m k = map_of (snd P') k"
    and "matches P \<lparr>labels = fst P', props = m\<rparr>"
  shows "P = P'"
proof -
  have m: "m ''entity_type'' = map_of (snd P') ''entity_type''"
    "m ''canonical_text'' = map_of (snd P') ''canonical_text''"
    "m ''record_id'' = map_of (snd P') ''record_id''"
    using assms(3) by (simp_all add: id_keys_def)
  from assms(1,2,4) show ?thesis
    unfolding pat_ok_def
    by (elim disjE exE)
      (simp_all add: matches_def node_matches_def m record_pattern_def person_pattern_def
        org_pattern_def location_pattern_def)
qed

lemma exec_no_new_match:
  assumes "stmt_ok R d" and "pat_ok R P" and "has_match P st"
    and "i < length (nodes (exec d now st))" and "matches P (nodes (exec d now st) ! i)"
  shows "i < length (nodes st)"
proof (rule ccontr)
  assume "\<not> i < length (nodes st)"
  then have ge: "length (nodes st) \<le> i" by simp
  show False
  proof (cases d)
    case (NodeStmt P' cr ow fl)
    with assms(4) ge have nm: "\<not> has_match P' st" and i: "i = length (nodes st)"
      by (auto split: if_splits)
    from NodeStmt nm i have "nodes (exec d now st) ! i = \<lparr>labels = fst P', props = cr now\<rparr>"
      by (simp add: exec_node_new del: exec.simps)
    with assms(5) have "matches P \<lparr>labels = fst P', props = cr now\<rparr>" by simp
    moreover from assms(1) NodeStmt have "pat_ok R P'"
      and "\<And>k. k \<in> set id_keys \<Longrightarrow> cr now k = map_of (snd P') k"
      by simp_all
    ultimately have "P = P'"
      using assms(2) pattern_of_new_node by blast
    with nm assms(3) show False by simp
  next
    case (RelStmt P1 P2 t cr touch)
    with assms(4) ge show False by simp
  qed
qed

lemma exec_match_ids:
  assumes "stmt_ok R d" and "pat_ok R P" and "has_match P st"
  shows "set (match_ids (fst P) (snd P) (exec d now st)) = set (match_ids (fst P) (snd P) st)"
proof -
  have "\<And>i. (i < length (nodes (exec d now st)) \<and> matches P (nodes (exec d now st) ! i)) =
             (i < length (nodes st) \<and> matches P (nodes st ! i))"
    using exec_no_new_match[OF assms] exec_matches_old[OF assms(1,2)]
      exec_length_mono[of st d now]
    by (metis less_le_trans)
  then show ?thesis
    by (auto simp: match_ids_def matches_def)
qed

section \<open>Saturation\<close>

lemma node_sim_refl [simp]: "node_sim n n"
  by (simp add: node_sim_def)

lemma edge_sim_refl [simp]: "edge_sim e e"
  by (simp add: edge_sim_def)

lemma edge_sim_touch [simp]: "edge_sim e (touch_edge touch now e)"
  by (simp add: edge_sim_def touch_edge_def)

lemma edge_matches_touch [simp]:
  "edge_matches a b t (touch_edge touch now e) = edge_matches a b t e"
  by (simp add: edge_matches_def touch_edge_def)

lemma store_sim_refl [simp]: "store_sim st st"
  by (simp add: store_sim_def list_all2_same)

lemma node_sim_trans: "node_sim a b \<Longrightarrow> node_sim b c \<Longrightarrow> node_sim a c"
  by (simp add: node_sim_def)

lemma edge_sim_trans: "edge_sim a b \<Longrightarrow> edge_sim b c \<Longrightarrow> edge_sim a c"
  by (simp add: edge_sim_def)

lemma store_sim_trans:
  assumes "store_sim a b" and "store_sim b c"
  shows "store_sim a c"
proof -
  from assms have n: "list_all2 node_sim (nodes a) (nodes b)" "list_all2 node_sim (nodes b) (nodes c)"
    and e: "list_all2 edge_sim (edges a) (edges b)" "list_all2 edge_sim (edges b) (edges c)"
    by (simp_all add: store_sim_def)
  have "list_all2 node_sim (nodes a) (nodes c)"
    by (rule list_all2_trans[where ?P1.0 = node_sim and ?P2.0 = node_sim, OF _ n(1) n(2)])
      (rule node_sim_trans)
  moreover have "list_all2 edge_sim (edges a) (edges c)"
    by (rule list_all2_trans[where ?P1.0 = edge_sim and ?P2.0 = edge_sim, OF _ e(1) e(2)])
      (rule edge_sim_trans)
  ultimately show ?thesis by (simp add: store_sim_def)
qed

lemma sat_node_sim:
  assumes "ow ''updated_at'' = None \<longrightarrow> True"
    and "\<forall>k. (ow k \<noteq> None \<longrightarrow> props n k = ow k) \<and> (fl k \<noteq> None \<longrightarrow> props n k \<noteq> None)"
  shows "node_sim n (n\<lparr>props := on_match_props ow fl now (props n)\<rparr>)"
  unfolding node_sim_def
proof (intro conjI allI impI)
  show "labels (n\<lparr>props := on_match_props ow fl now (props n)\<rparr>) = labels n" by simp
next
  fix k :: string
  assume k: "k \<noteq> ''updated_at''"
  show "props (n\<lparr>props := on_match_props ow fl now (props n)\<rparr>) k = props n k"
  proof (cases "ow k")
    case None
    show ?thesis
    proof (cases "fl k")
      case None
      with \<open>ow k = None\<close> k show ?thesis
        by (simp add: on_match_props_def coalesce_None_right)
    next
      case (Some v)
      with assms(2) have "props n k \<noteq> None" by simp
      with \<open>ow k = None\<close> k show ?thesis
        by (simp add: on_match_props_def coalesce_Some)
    qed
  next
    case (Some v)
    with assms(2) have "props n k = Some v" by simp
    with Some k show ?thesis
      by (simp add: on_match_props_def)
  qed
qed

lemma sat_store_sim:
  assumes "sat d st"
  shows "store_sim st (exec d now st)"
proof (cases d)
  case (NodeStmt P cr ow fl)
  with assms have hm: "has_match P st"
    and c: "\<And>n. n \<in> set (nodes st) \<Longrightarrow> matches P n \<Longrightarrow>
              \<forall>k. (ow k \<noteq> None \<longrightarrow> props n k = ow k) \<and> (fl k \<noteq> None \<longrightarrow> props n k \<noteq> None)"
    by simp_all
  have "list_all2 node_sim (nodes st)
          (map (\<lambda>n. if matches P n then n\<lparr>props := on_match_props ow fl now (props n)\<rparr> else n)
             (nodes st))"
    unfolding list_all2_map2 list_all2_same
    by (auto intro: sat_node_sim dest: c)
  with hm NodeStmt show ?thesis
    by (simp add: store_sim_def list_all2_same)
next
  case (RelStmt P1 P2 t cr touch)
  with assms have c: "\<forall>(a, b) \<in> set (matched_pairs P1 P2 st). list_ex (edge_matches a b t) (edges st)"
    by simp
  then have "filter (\<lambda>(a, b). \<not> list_ex (edge_matches a b t) (edges st)) (matched_pairs P1 P2 st) = []"
    by (auto simp: filter_empty_conv)
  moreover have "list_all2 edge_sim (edges st)
      (map (\<lambda>e. if (src e, dst e) \<in> set (matched_pairs P1 P2 st) \<and> rtype e = t
                then touch_edge touch now e else e) (edges st))"
    unfolding list_all2_map2 list_all2_same by simp
  ultimately show ?thesis
    using RelStmt by (simp add: store_sim_def list_all2_same)
qed

lemma record_pattern_inj:
  "matches (record_pattern R rid) n \<Longrightarrow> matches (record_pattern R rid') n \<Longrightarrow> rid = rid'"
  by (simp add: matches_def node_matches_def record_pattern_def)

lemma in_set_nodes_exec:
  assumes "n' \<in> set (nodes (exec d now st))"
  obtains i where "i < length (nodes (exec d now st))" and "n' = nodes (exec d now st) ! i"
  using assms by (auto simp: in_set_conv_nth)

lemma sat_stable_node:
  assumes okd: "stmt_ok R (NodeStmt P cr ow fl)" and okd': "stmt_ok R d'"
    and cmp: "compat (NodeStmt P cr ow fl) d'"
    and s: "sat (NodeStmt P cr ow fl) st"
  shows "sat (NodeStmt P cr ow fl) (exec d' now st)"
proof -
  from okd have pP: "pat_ok R P" by simp
  from s have hm: "has_match P st" by simp
  have hm': "has_match P (exec d' now st)"
    using okd' pP hm by (rule exec_has_match)
  have "\<forall>k. (ow k \<noteq> None \<longrightarrow> props n' k = ow k) \<and> (fl k \<noteq> None \<longrightarrow> props n' k \<noteq> None)"
    if n': "n' \<in> set (nodes (exec d' now st))" and m': "matches P n'" for n'
  proof -
    from n' obtain i where i': "i < length (nodes (exec d' now st))"
      and n'i: "n' = nodes (exec d' now st) ! i"
      by (rule in_set_nodes_exec)
    from exec_no_new_match[OF okd' pP hm i'] m' n'i have i: "i < length (nodes st)" by simp
    let ?n = "nodes st ! i"
    from exec_matches_old[OF okd' pP i, of now] m' n'i have m: "matches P ?n" by simp
    from i have "?n \<in> set (nodes st)" by simp
    with s m have c: "\<forall>k. (ow k \<noteq> None \<longrightarrow> props ?n k = ow k) \<and> (fl k \<noteq> None \<longrightarrow> props ?n k \<noteq> None)"
      by simp
    show ?thesis
    proof (cases d')
      case (RelStmt P1 P2 t cr' touch)
      with n'i c show ?thesis by simp
    next
      case (NodeStmt P' cr' ow' fl')
      show ?thesis
      proof (cases "matches P' ?n")
        case False
        with NodeStmt n'i i c show ?thesis
          by (simp add: exec_node_nth del: exec.simps)
      next
        case True
        with NodeStmt n'i i
        have pr: "props n' = on_match_props ow' fl' now (props ?n)"
          by (simp add: exec_node_nth del: exec.simps)
        show ?thesis
        proof (intro allI conjI impI)
          fix k
          assume owk: "ow k \<noteq> None"
          with okd have kd: "k = ''description''" and "\<exists>rid. P = record_pattern R rid"
            by auto
          then obtain rid where P: "P = record_pattern R rid" by blast
          from owk c have pk: "props ?n k = ow k" by simp
          show "props n' k = ow k"
          proof (cases "ow' k")
            case None
            with pk owk kd show ?thesis
              by (simp add: pr on_match_props_def coalesce_Some)
          next
            case (Some v')
            with okd' NodeStmt obtain rid' where P': "P' = record_pattern R rid'"
              by auto
            from m True P P' have "rid = rid'" by (auto dest: record_pattern_inj)
            with P P' cmp NodeStmt have "ow = ow'" by simp
            with Some kd show ?thesis
              by (simp add: pr on_match_props_def)
          qed
        next
          fix k
          assume flk: "fl k \<noteq> None"
          with okd have ku: "k \<noteq> ''updated_at''" by auto
          from flk c have "props ?n k \<noteq> None" by simp
          with ku show "props n' k \<noteq> None"
            by (cases "ow' k") (simp_all add: pr on_match_props_def coalesce_Some)
        qed
      qed
    qed
  qed
  with hm' show ?thesis by simp
qed

lemma exec_rel_edges:
  "edges (exec (RelStmt P1 P2 t cr touch) now st) =
   map (\<lambda>e. if (src e, dst e) \<in> set (matched_pairs P1 P2 st) \<and> rtype e = t
            then touch_edge touch now e else e) (edges st) @
   map (\<lambda>(a, b). \<lparr>src = a, dst = b, rtype = t, eprops = cr now\<rparr>)
     (filter (\<lambda>(a, b). \<not> list_ex (edge_matches a b t) (edges st)) (matched_pairs P1 P2 st))"
  by simp

lemma list_ex_appendI1: "list_ex P xs \<Longrightarrow> list_ex P (xs @ ys)"
  by (auto simp: list_ex_iff)

lemma exec_edges_list_ex:
  assumes "list_ex (edge_matches a b t) (edges st)"
  shows "list_ex (edge_matches a b t) (edges (exec d now st))"
proof (cases d)
  case (NodeStmt P cr ow fl)
  with assms show ?thesis by simp
next
  case (RelStmt P1 P2 t' cr touch)
  let ?g = "\<lambda>e. if (src e, dst e) \<in> set (matched_pairs P1 P2 st) \<and> rtype e = t'
                then touch_edge touch now e else e"
  from assms obtain e where e: "e \<in> set (edges st)" "edge_matches a b t e"
    by (auto simp: list_ex_iff)
  then have "?g e \<in> set (map ?g (edges st))" and "edge_matches a b t (?g e)"
    by simp_all
  then have "list_ex (edge_matches a b t) (map ?g (edges st))"
    unfolding list_ex_iff by blast
  then show ?thesis
    unfolding RelStmt exec_rel_edges by (rule list_ex_appendI1)
qed

lemma matched_pairs_set:
  "set (matched_pairs P1 P2 st) =
   set (match_ids (fst P1) (snd P1) st) \<times> set (match_ids (fst P2) (snd P2) st)"
  by (simp add: matched_pairs_def)

lemma sat_stable_rel:
  assumes okd: "stmt_ok R (RelStmt P1 P2 t cr touch)" and okd': "stmt_ok R d'"
    and s: "sat (RelStmt P1 P2 t cr touch) st"
  shows "sat (RelStmt P1 P2 t cr touch) (exec d' now st)"
proof -
  from okd have p: "pat_ok R P1" "pat_ok R P2" by simp_all
  from s have hm: "has_match P1 st" "has_match P2 st" by simp_all
  have pairs: "set (matched_pairs P1 P2 (exec d' now st)) = set (matched_pairs P1 P2 st)"
    by (simp add: matched_pairs_set exec_match_ids[OF okd' p(1) hm(1)]
        exec_match_ids[OF okd' p(2) hm(2)])
  from s have "\<forall>(a, b) \<in> set (matched_pairs P1 P2 st). list_ex (edge_matches a b t) (edges st)"
    by simp
  then have "\<forall>(a, b) \<in> set (matched_pairs P1 P2 (exec d' now st)).
               list_ex (edge_matches a b t) (edges (exec d' now st))"
    unfolding pairs by (auto intro: exec_edges_list_ex)
  with exec_has_match[OF okd' p(1) hm(1)] exec_has_match[OF okd' p(2) hm(2)]
  show ?thesis by simp
qed

lemma sat_stable:
  assumes "stmt_ok R d" and "stmt_ok R d'" and "compat d d'" and "sat d st"
  shows "sat d (exec d' now st)"
proof (cases d)
  case (NodeStmt P cr ow fl)
  with assms show ?thesis by (auto intro: sat_stable_node simp del: sat.simps exec.simps stmt_ok.simps compat.simps)
next
  case (RelStmt P1 P2 t cr touch)
  with assms show ?thesis by (auto intro: sat_stable_rel simp del: sat.simps exec.simps stmt_ok.simps)
qed

section \<open>Running a list of statements twice\<close>

lemma pat_ok_distinct: "pat_ok R P \<Longrightarrow> distinct (map fst (snd P))"
  by (auto simp: pat_ok_def record_pattern_def person_pattern_def org_pattern_def
      location_pattern_def)

lemma new_node_matches:
  assumes "pat_ok R P" and "\<And>k. k \<in> set id_keys \<Longrightarrow> m k = map_of (snd P) k"
  shows "matches P \<lparr>labels = fst P, props = m\<rparr>"
proof -
  have "m k = Some v" if "(k, v) \<in> set (snd P)" for k v
  proof -
    from that pat_ok_keys[OF assms(1)] have "k \<in> set id_keys" by force
    with assms(2) have "m k = map_of (snd P) k" by simp
    with that pat_ok_distinct[OF assms(1)] show ?thesis by simp
  qed
  then show ?thesis
    by (auto simp: matches_def node_matches_def list_all_iff)
qed

lemma sat_established_node:
  assumes ok: "stmt_ok R (NodeStmt P cr ow fl)"
  shows "sat (NodeStmt P cr ow fl) (exec (NodeStmt P cr ow fl) now st)"
proof (cases "has_match P st")
  case True
  from ok have pP: "pat_ok R P" by simp
  have hm': "has_match P (exec (NodeStmt P cr ow fl) now st)"
    using ok pP True by (rule exec_has_match)
  have "\<forall>k. (ow k \<noteq> None \<longrightarrow> props n' k = ow k) \<and> (fl k \<noteq> None \<longrightarrow> props n' k \<noteq> None)"
    if n': "n' \<in> set (nodes (exec (NodeStmt P cr ow fl) now st))" and m': "matches P n'" for n'
  proof -
    from n' obtain i where i': "i < length (nodes (exec (NodeStmt P cr ow fl) now st))"
      and n'i: "n' = nodes (exec (NodeStmt P cr ow fl) now st) ! i"
      by (rule in_set_nodes_exec)
    from exec_no_new_match[OF ok pP True i'] m' n'i have i: "i < length (nodes st)" by simp
    from exec_matches_old[OF ok pP i, of now] m' n'i have m: "matches P (nodes st ! i)" by simp
    with n'i i have pr: "props n' = on_match_props ow fl now (props (nodes st ! i))"
      by (simp add: exec_node_nth del: exec.simps)
    show ?thesis
    proof (intro allI conjI impI)
      fix k
      assume "ow k \<noteq> None"
      moreover with ok have "k \<noteq> ''updated_at''" by auto
      ultimately show "props n' k = ow k"
        by (auto simp: pr on_match_props_def)
    next
      fix k
      assume flk: "fl k \<noteq> None"
      with ok have "k \<noteq> ''updated_at''" by auto
      with flk show "props n' k \<noteq> None"
        by (cases "ow k") (auto simp: pr on_match_props_def coalesce_def split: option.splits)
    qed
  qed
  with hm' show ?thesis unfolding sat.simps by blast
next
  case False
  from ok have pP: "pat_ok R P" and cr: "\<And>k. k \<in> set id_keys \<Longrightarrow> cr now k = map_of (snd P) k"
    and c: "\<And>k. (ow k \<noteq> None \<longrightarrow> cr now k = ow k) \<and> (fl k \<noteq> None \<longrightarrow> cr now k \<noteq> None)"
    by simp_all
  let ?new = "\<lparr>labels = fst P, props = cr now\<rparr>"
  have nodes': "nodes (exec (NodeStmt P cr ow fl) now st) = nodes st @ [?new]"
    using False by (rule exec_node_new)
  have mnew: "matches P ?new"
    using pP cr by (rule new_node_matches)
  then have hm': "has_match P (exec (NodeStmt P cr ow fl) now st)"
    unfolding has_match_def nodes' by simp
  have "\<forall>k. (ow k \<noteq> None \<longrightarrow> props n' k = ow k) \<and> (fl k \<noteq> None \<longrightarrow> props n' k \<noteq> None)"
    if n': "n' \<in> set (nodes (exec (NodeStmt P cr ow fl) now st))" and m': "matches P n'" for n'
  proof -
    from n' False m' have "n' = ?new"
      unfolding nodes' by (auto simp: has_match_def list_ex_iff)
    with c show ?thesis by simp
  qed
  with hm' show ?thesis unfolding sat.simps by blast
qed

lemma sat_established_rel:
  assumes hm: "has_match P1 st" "has_match P2 st"
  shows "sat (RelStmt P1 P2 t cr touch) (exec (RelStmt P1 P2 t cr touch) now st)"
proof -
  let ?st' = "exec (RelStmt P1 P2 t cr touch) now st"
  have n: "nodes ?st' = nodes st" by simp
  have pairs: "matched_pairs P1 P2 ?st' = matched_pairs P1 P2 st"
    by (simp add: matched_pairs_def match_ids_def)
  have hm': "has_match P1 ?st'" "has_match P2 ?st'"
    using hm by (simp_all add: has_match_def)
  have "list_ex (edge_matches a b t) (edges ?st')" if ab: "(a, b) \<in> set (matched_pairs P1 P2 st)" for a b
  proof (cases "list_ex (edge_matches a b t) (edges st)")
    case True
    then show ?thesis by (rule exec_edges_list_ex)
  next
    case False
    let ?ne = "\<lparr>src = a, dst = b, rtype = t, eprops = cr now\<rparr>"
    from ab False have "?ne \<in> set (edges ?st')"
      unfolding exec_rel_edges by (auto intro!: image_eqI[where x = "(a, b)"])
    moreover have "edge_matches a b t ?ne" by (simp add: edge_matches_def)
    ultimately show ?thesis unfolding list_ex_iff by blast
  qed
  with hm' show ?thesis
    unfolding sat.simps pairs by blast
qed

lemma sat_established:
  assumes "stmt_ok R d" and "ready d st"
  shows "sat d (exec d now st)"
proof (cases d)
  case (NodeStmt P cr ow fl)
  with assms(1) show ?thesis by (auto intro: sat_established_node simp del: sat.simps exec.simps stmt_ok.simps)
next
  case (RelStmt P1 P2 t cr touch)
  with assms(2) show ?thesis by (auto intro: sat_established_rel simp del: sat.simps exec.simps)
qed

text \<open>Statements run through \<open>write_stmt\<close>; the statement counter does not matter here.\<close>

lemma has_match_writes [simp]: "has_match P (st\<lparr>writes := w\<rparr>) = has_match P st"
  by (simp add: has_match_def)

lemma matched_pairs_writes [simp]: "matched_pairs P1 P2 (st\<lparr>writes := w\<rparr>) = matched_pairs P1 P2 st"
  by (simp add: matched_pairs_def match_ids_def)

lemma sat_writes [simp]: "sat d (st\<lparr>writes := w\<rparr>) = sat d st"
  by (cases d) simp_all

lemma store_sim_writes [simp]: "store_sim st (st'\<lparr>writes := w\<rparr>) = store_sim st st'"
  by (simp add: store_sim_def)

lemma sat_has_match_node: "sat (NodeStmt P cr ow fl) st \<Longrightarrow> has_match P st"
  by simp

lemma step_sat_established:
  "stmt_ok R d \<Longrightarrow> ready d st \<Longrightarrow> sat d (write_stmt clk (exec d) st)"
  by (simp add: write_stmt_def sat_established)

lemma step_sat_stable:
  "stmt_ok R d \<Longrightarrow> stmt_ok R d' \<Longrightarrow> compat d d' \<Longrightarrow> sat d st \<Longrightarrow>
   sat d (write_stmt clk (exec d') st)"
  by (simp add: write_stmt_def sat_stable)

lemma step_has_match:
  "stmt_ok R d \<Longrightarrow> pat_ok R P \<Longrightarrow> has_match P st \<Longrightarrow> has_match P (write_stmt clk (exec d) st)"
  by (simp add: write_stmt_def exec_has_match)

lemma step_store_sim: "sat d st \<Longrightarrow> store_sim st (write_stmt clk (exec d) st)"
  by (simp add: write_stmt_def sat_store_sim)

lemma run_sat_stable:
  assumes "stmt_ok R d" and "sat d st"
    and "\<forall>d' \<in> set ds. stmt_ok R d' \<and> compat d d'"
  shows "sat d (run clk ds st)"
  using assms(2,3)
proof (induction ds arbitrary: st)
  case Nil
  then show ?case by simp
next
  case (Cons d' ds)
  from Cons.prems have "sat d (write_stmt clk (exec d') st)"
    using assms(1) by (simp add: step_sat_stable)
  with Cons show ?case by simp
qed

lemma ordered_ready:
  assumes "ordered seen (d # ds)" and "\<forall>P \<in> set seen. has_match P st"
  shows "ready d st"
  using assms by (cases d) simp_all

lemma run_sat:
  assumes "ordered seen ds" and "\<forall>P \<in> set seen. pat_ok R P \<and> has_match P st"
    and "\<forall>d \<in> set ds. stmt_ok R d" and "\<forall>d \<in> set ds. \<forall>d' \<in> set ds. compat d d'"
  shows "\<forall>d \<in> set ds. sat d (run clk ds st)"
  using assms
proof (induction ds arbitrary: st seen)
  case Nil
  then show ?case by simp
next
  case (Cons d ds)
  let ?st' = "write_stmt clk (exec d) st"
  from Cons.prems(3) have okd: "stmt_ok R d" and okds: "\<forall>d \<in> set ds. stmt_ok R d"
    by simp_all
  from Cons.prems(1,2) have "ready d st"
    by (auto intro: ordered_ready)
  with okd have satd: "sat d ?st'"
    by (rule step_sat_established)
  from Cons.prems(2) okd have seen': "\<forall>P \<in> set seen. pat_ok R P \<and> has_match P ?st'"
    by (auto intro: step_has_match)
  obtain seen' where ord': "ordered seen' ds"
    and hs': "\<forall>P \<in> set seen'. pat_ok R P \<and> has_match P ?st'"
  proof (cases d)
    case (NodeStmt P cr ow fl)
    with Cons.prems(1) have "ordered (P # seen) ds" by simp
    moreover from NodeStmt satd okd seen'
    have "\<forall>P' \<in> set (P # seen). pat_ok R P' \<and> has_match P' ?st'" by simp
    ultimately show ?thesis by (rule that)
  next
    case (RelStmt P1 P2 t cr touch)
    with Cons.prems(1) have "ordered seen ds" by simp
    then show ?thesis using seen' by (rule that)
  qed
  from Cons.prems(4) have cds: "\<forall>d \<in> set ds. \<forall>d' \<in> set ds. compat d d'"
    and cd: "\<forall>d' \<in> set ds. compat d d'"
    by simp_all
  have tail: "\<forall>d \<in> set ds. sat d (run clk ds ?st')"
    using ord' hs' okds cds by (rule Cons.IH)
  have "sat d (run clk ds ?st')"
    using okd satd okds cd by (auto intro: run_sat_stable)
  with tail show ?case by simp
qed

lemma run_store_sim:
  assumes "\<forall>d \<in> set ds. sat d st" and "\<forall>d \<in> set ds. stmt_ok R d"
    and "\<forall>d \<in> set ds. \<forall>d' \<in> set ds. compat d d'"
  shows "store_sim st (run clk ds st)"
  using assms
proof (induction ds arbitrary: st)
  case Nil
  then show ?case by simp
next
  case (Cons d ds)
  let ?st' = "write_stmt clk (exec d) st"
  from Cons.prems(1) have s1: "store_sim st ?st'"
    by (simp add: step_store_sim)
  from Cons.prems have "\<forall>d' \<in> set ds. sat d' ?st'"
    by (auto intro: step_sat_stable)
  moreover from Cons.prems have "\<forall>d \<in> set ds. stmt_ok R d"
    and "\<forall>d \<in> set ds. \<forall>d' \<in> set ds. compat d d'"
    by simp_all
  ultimately have "store_sim ?st' (run clk ds ?st')"
    by (rule Cons.IH)
  with s1 show ?case
    by (auto intro: store_sim_trans)
qed

lemma run_twice:
  assumes "ordered [] ds" and "\<forall>d \<in> set ds. stmt_ok R d"
    and "\<forall>d \<in> set ds. \<forall>d' \<in> set ds. compat d d'"
  shows "store_sim (run clk ds st) (run clk ds (run clk ds st))"
proof -
  have "\<forall>d \<in> set ds. sat d (run clk ds st)"
    using assms(1) _ assms(2,3) by (rule run_sat) simp
  then show ?thesis
    using assms(2,3) by (rule run_store_sim)
qed

section \<open>The statements of a run\<close>

lemma num_of_str_nat: "num_of (str_nat n) = n"
proof (induction n rule: str_nat.induct)
  case (1 n)
  show ?case
  proof (cases "n < 10")
    case True
    then show ?thesis
      by (subst str_nat.simps) (simp add: num_of_def digit_char_def)
  next
    case False
    with 1 have IH: "num_of (str_nat (n div 10)) = n div 10" by simp
    have "n mod 10 < 10" by simp
    then have d: "of_char (digit_char (n mod 10)) - 48 = n mod 10"
      by (simp add: digit_char_def)
    from False have "num_of (str_nat n) =
        10 * num_of (str_nat (n div 10)) + (of_char (digit_char (n mod 10)) - 48)"
      by (subst str_nat.simps) (simp add: num_of_def)
    with IH d show ?thesis by simp
  qed
qed

lemma str_nat_inj: "str_nat m = str_nat n \<Longrightarrow> m = n"
  by (metis num_of_str_nat)

lemma record_id_of_inj: "record_id_of R i = record_id_of R j \<Longrightarrow> i = j"
  by (auto simp: record_id_of_def dest: str_nat_inj)

lemma id_not_attr: "k \<in> set (''updated_at'' # id_keys) \<Longrightarrow> k \<notin> set person_attrs"
  by (auto simp: id_keys_def person_attrs_def)

lemma description_not_attr: "''description'' \<notin> set person_attrs"
  by (simp add: person_attrs_def)

lemma person_create:
  "apply_sets
     ((''name'', \<lambda>_. Some (Str name)) # map (\<lambda>k. (k, \<lambda>_. f k)) person_attrs @
      [(''source'', \<lambda>_. Some (Str ''structured_text'')),
       (''created_at'', \<lambda>_. Some (DateTime now)),
       (''updated_at'', \<lambda>_. Some (DateTime now))]) m =
   (\<lambda>k. if k = ''updated_at'' then Some (DateTime now)
        else if k = ''created_at'' then Some (DateTime now)
        else if k = ''source'' then Some (Str ''structured_text'')
        else if k \<in> set person_attrs then f k
        else if k = ''name'' then Some (Str name) else m k)"
  by (rule ext) (simp add: apply_sets_Cons apply_sets_const apply_sets_Nil)

lemma source_not_attr: "''source'' \<notin> set person_attrs" "''created_at'' \<notin> set person_attrs"
  by (simp_all add: person_attrs_def)

lemma stmt_ok_record: "stmt_ok R (record_stmt R rid row description)"
  unfolding record_stmt_def stmt_ok.simps
  by (auto simp: pat_ok_def id_keys_def apply_sets_Cons apply_sets_Nil record_pattern_def)

lemma stmt_ok_person: "stmt_ok R (person_stmt name fs)"
  unfolding person_stmt_def stmt_ok.simps person_create
proof (intro conjI)
  show "pat_ok R (person_pattern name)" by (auto simp: pat_ok_def)
next
  show "\<forall>k\<in>set (''updated_at'' # id_keys).
       Map.empty k = None \<and> (if k \<in> set person_attrs then param fs k else None) = None"
    using id_not_attr by simp
next
  show "\<forall>now. \<forall>k\<in>set id_keys.
       (if k = ''updated_at'' then Some (DateTime now)
        else if k = ''created_at'' then Some (DateTime now)
        else if k = ''source'' then Some (Str ''structured_text'')
        else if k \<in> set person_attrs then param fs k
        else if k = ''name'' then Some (Str name)
        else map_of [(''entity_type'', Str ''PERSON''), (''canonical_text'', Str name)] k) =
       map_of (snd (person_pattern name)) k"
    using id_not_attr by (auto simp: id_keys_def person_pattern_def)
next
  show "\<forall>now k.
       (Map.empty k \<noteq> None \<longrightarrow>
        (if k = ''updated_at'' then Some (DateTime now)
         else if k = ''created_at'' then Some (DateTime now)
         else if k = ''source'' then Some (Str ''structured_text'')
         else if k \<in> set person_attrs then param fs k
         else if k = ''name'' then Some (Str name)
         else map_of [(''entity_type'', Str ''PERSON''), (''canonical_text'', Str name)] k) =
        Map.empty k) \<and>
       ((if k \<in> set person_attrs then param fs k else None) \<noteq> None \<longrightarrow>
        (if k = ''updated_at'' then Some (DateTime now)
         else if k = ''created_at'' then Some (DateTime now)
         else if k = ''source'' then Some (Str ''structured_text'')
         else if k \<in> set person_attrs then param fs k
         else if k = ''name'' then Some (Str name)
         else map_of [(''entity_type'', Str ''PERSON''), (''canonical_text'', Str name)] k) \<noteq>
        None)"
    using source_not_attr updated_at_not_attr by auto
next
  show "\<forall>k. Map.empty k \<noteq> None \<longrightarrow>
       k = ''description'' \<and> (\<exists>rid. person_pattern name = record_pattern R rid)"
    by simp
next
  show "(if ''description'' \<in> set person_attrs then param fs ''description'' else None) = None"
    using description_not_attr by simp
qed

lemma stmt_ok_org: "stmt_ok R (org_stmt name fs)"
  unfolding org_stmt_def stmt_ok.simps
  by (auto simp: pat_ok_def id_keys_def apply_sets_Cons apply_sets_Nil org_pattern_def)

lemma stmt_ok_location: "stmt_ok R (location_stmt name)"
  unfolding location_stmt_def stmt_ok.simps
  by (auto simp: pat_ok_def id_keys_def apply_sets_Cons apply_sets_Nil location_pattern_def)

lemma stmt_ok_describes: "stmt_ok R (describes_stmt R rid name)"
  by (auto simp: describes_stmt_def pat_ok_def)

lemma stmt_ok_assoc: "stmt_ok R (assoc_stmt pn orgn)"
  by (auto simp: assoc_stmt_def pat_ok_def)

lemma stmt_ok_located: "stmt_ok R (located_stmt pn ln t)"
  by (auto simp: located_stmt_def pat_ok_def)

lemma program_stmt_ok: "program_stmt R rows d \<Longrightarrow> stmt_ok R d"
  unfolding program_stmt_def
  by (elim disjE exE conjE)
    (simp_all only: stmt_ok_record stmt_ok_person stmt_ok_org stmt_ok_location
      stmt_ok_describes stmt_ok_assoc stmt_ok_located)

lemma program_stmt_cases:
  assumes "program_stmt R rows d"
  obtains (recd) idx c description where "(idx, c) \<in> set rows"
      and "clean_str c = Some description"
      and "d = record_stmt R (record_id_of R idx) (idx + 1) description"
    | (entity) P cr fl where "d = NodeStmt P cr Map.empty fl"
      and "\<And>rid. P \<noteq> record_pattern R rid"
    | (rel) P1 P2 t cr touch where "d = RelStmt P1 P2 t cr touch"
proof -
  from assms consider
      (a) idx c description where "(idx, c) \<in> set rows" "clean_str c = Some description"
        "d = record_stmt R (record_id_of R idx) (idx + 1) description"
    | (b) name fs where "d = person_stmt name fs"
    | (c) name fs where "d = org_stmt name fs"
    | (d) name where "d = location_stmt name"
    | (e) rid name where "d = describes_stmt R rid name"
    | (f) pn orgn where "d = assoc_stmt pn orgn"
    | (g) pn ln t where "d = located_stmt pn ln t"
    unfolding program_stmt_def by blast
  then show ?thesis
  proof cases
    case a
    then show ?thesis by (rule recd)
  next
    case b
    show ?thesis
      by (rule entity[of "person_pattern name"])
        (simp_all add: b person_stmt_def person_pattern_def record_pattern_def)
  next
    case c
    show ?thesis
      by (rule entity[of "org_pattern name"])
        (simp_all add: c org_stmt_def org_pattern_def record_pattern_def)
  next
    case d
    show ?thesis
      by (rule entity[of "location_pattern name"])
        (simp_all add: d location_stmt_def location_pattern_def record_pattern_def)
  next
    case e
    then show ?thesis by (auto simp: describes_stmt_def intro: rel)
  next
    case f
    then show ?thesis by (auto simp: assoc_stmt_def intro: rel)
  next
    case g
    then show ?thesis by (auto simp: located_stmt_def intro: rel)
  qed
qed

lemma compat_rel_left [simp]: "compat (RelStmt P1 P2 t cr touch) d'"
  by (cases d') simp_all

lemma compat_rel_right [simp]: "compat d (RelStmt P1 P2 t cr touch)"
  by (cases d) simp_all

lemma program_stmt_compat:
  assumes "distinct (map fst rows)" and "program_stmt R rows d" and "program_stmt R rows d'"
  shows "compat d d'"
  using assms(2)
proof (cases rule: program_stmt_cases)
  case (rel P1 P2 t cr touch)
  then show ?thesis by simp
next
  case (entity P cr fl)
  from assms(3) show ?thesis
  proof (cases rule: program_stmt_cases)
    case (rel P1 P2 t cr touch)
    then show ?thesis by simp
  next
    case e': (entity P' cr' fl')
    with entity show ?thesis by simp
  next
    case (recd j c' y)
    with entity show ?thesis by (simp add: record_stmt_def)
  qed
next
  case (recd i c x)
  from assms(3) show ?thesis
  proof (cases rule: program_stmt_cases)
    case (rel P1 P2 t cr touch)
    then show ?thesis by simp
  next
    case (entity P' cr' fl')
    from entity(2)[of "record_id_of R i"] have "record_pattern R (record_id_of R i) \<noteq> P'"
      by (rule not_sym)
    with entity recd show ?thesis by (simp add: record_stmt_def)
  next
    case r': (recd j c' y)
    show ?thesis
    proof (cases "i = j")
      case True
      with recd r' assms(1) have "c = c'"
        by (metis eq_key_imp_eq_value)
      with recd r' True show ?thesis by (simp add: record_stmt_def)
    next
      case False
      then have "record_id_of R i \<noteq> record_id_of R j"
        by (auto dest: record_id_of_inj)
      with recd r' show ?thesis by (simp add: record_stmt_def record_pattern_def)
    qed
  qed
qed

section \<open>Idempotence of a run\<close>

lemma program_stmt_mono: "program_stmt R rows d \<Longrightarrow> set rows \<subseteq> set rows' \<Longrightarrow> program_stmt R rows' d"
  unfolding program_stmt_def by blast

lemma program_stmtI:
  "program_stmt R rows (person_stmt name fs)"
  "program_stmt R rows (org_stmt name fs)"
  "program_stmt R rows (location_stmt name)"
  "program_stmt R rows (describes_stmt R rid name)"
  "program_stmt R rows (assoc_stmt pn orgn)"
  "program_stmt R rows (located_stmt pn ln t)"
  unfolding program_stmt_def by blast+

lemma location_stmts_program:
  "d \<in> set (location_stmts pn pf lmap) \<Longrightarrow> program_stmt R rows d"
proof (induction lmap)
  case Nil
  then show ?case by simp
next
  case (Cons a lmap)
  obtain field_key rel_type where a: "a = (field_key, rel_type)" by (cases a)
  show ?case
  proof (cases "clean_str (py_get pf field_key)")
    case None
    with Cons show ?thesis by (simp add: a)
  next
    case (Some loc)
    with Cons.prems have "d = location_stmt loc \<or> d = located_stmt pn loc rel_type \<or>
        d \<in> set (location_stmts pn pf lmap)"
      by (simp add: a)
    with Cons.IH show ?thesis
      by (auto simp: program_stmtI)
  qed
qed

lemma binding_stmts_program:
  assumes "d \<in> set (binding_stmts R rid pname oname pf)"
  shows "program_stmt R rows d"
proof (cases pname)
  case None
  with assms show ?thesis by (simp add: binding_stmts_def)
next
  case (Some pn)
  with assms have "d = describes_stmt R rid pn \<or>
      d \<in> set (location_stmts pn pf (LOCATION_REL_MAP R)) \<or>
      (\<exists>orgn. d = assoc_stmt pn orgn)"
    by (auto simp: binding_stmts_def split: option.splits)
  then show ?thesis
    by (auto simp: program_stmtI intro: location_stmts_program)
qed

lemma entity_stmts_program:
  assumes "d \<in> set (entity_stmts R rid pf orgf)"
  shows "program_stmt R rows d"
proof -
  from assms have "(\<exists>pn. d = person_stmt pn pf) \<or> (\<exists>orgn. d = org_stmt orgn orgf) \<or>
      d \<in> set (binding_stmts R rid (clean_str (py_get pf ''name''))
                 (clean_str (py_get orgf ''name'')) pf)"
    unfolding entity_stmts_def by (auto split: option.splits)
  then show ?thesis
    by (auto simp: program_stmtI intro: binding_stmts_program)
qed

lemma row_stmts_program:
  assumes "row \<in> set rows" and "d \<in> set (row_stmts R re_search row)"
  shows "program_stmt R rows d"
proof -
  obtain idx c where row: "row = (idx, c)" by (cases row)
  show ?thesis
  proof (cases "clean_str c")
    case None
    with assms(2) show ?thesis by (simp add: row row_stmts_def)
  next
    case (Some description)
    have r: "program_stmt R rows (record_stmt R (record_id_of R idx) (idx + 1) description)"
      unfolding program_stmt_def using assms(1) Some row by blast
    show ?thesis
    proof (cases "extract_fields R re_search description")
      case (Inl e)
      with assms(2) Some have "d = record_stmt R (record_id_of R idx) (idx + 1) description"
        by (simp add: row row_stmts_def record_id_of_def)
      with r show ?thesis by simp
    next
      case (Inr fs)
      with assms(2) Some have "d = record_stmt R (record_id_of R idx) (idx + 1) description \<or>
          d \<in> set (entity_stmts R (record_id_of R idx)
                 (get_group fs ''person'') (get_group fs ''organization''))"
        by (simp add: row row_stmts_def record_id_of_def)
      with r show ?thesis
        by (auto intro: entity_stmts_program)
    qed
  qed
qed

lemma rows_stmts_subset:
  "d \<in> set (rows_stmts R re_search rows) \<Longrightarrow> \<exists>row \<in> set rows. d \<in> set (row_stmts R re_search row)"
  by (induction rows) (auto split: option.splits)

lemma rows_stmts_program:
  assumes "d \<in> set (rows_stmts R re_search rows)"
  shows "program_stmt R rows d"
proof -
  from rows_stmts_subset[OF assms] obtain row where "row \<in> set rows"
    and "d \<in> set (row_stmts R re_search row)" by blast
  then show ?thesis by (rule row_stmts_program)
qed

lemma ordered_mono: "ordered seen ds \<Longrightarrow> set seen \<subseteq> set seen' \<Longrightarrow> ordered seen' ds"
proof (induction seen ds arbitrary: seen' rule: ordered.induct)
  case (1 seen)
  show ?case by simp
next
  case (2 seen P cr ow fl ds)
  from "2.prems" have "ordered (P # seen) ds" and "set (P # seen) \<subseteq> set (P # seen')"
    by auto
  then have "ordered (P # seen') ds" by (rule "2.IH")
  then show ?case by simp
next
  case (3 seen P1 P2 t cr touch ds)
  from "3.prems" have "ordered seen' ds" by (auto intro: "3.IH")
  with "3.prems" show ?case by auto
qed

lemma ordered_append:
  "ordered seen xs \<Longrightarrow> ordered seen ys \<Longrightarrow> ordered seen (xs @ ys)"
proof (induction seen xs rule: ordered.induct)
  case (1 seen)
  then show ?case by simp
next
  case (2 seen P cr ow fl ds)
  from "2.prems"(2) have "ordered (P # seen) ys"
    by (rule ordered_mono) auto
  with "2.IH" "2.prems" show ?case by simp
next
  case (3 seen P1 P2 t cr touch ds)
  then show ?case by simp
qed

lemma ordered_location_stmts:
  "person_pattern pn \<in> set seen \<Longrightarrow> ordered seen (location_stmts pn pf lmap)"
proof (induction lmap arbitrary: seen)
  case Nil
  show ?case by simp
next
  case (Cons a lmap)
  obtain field_key rel_type where a: "a = (field_key, rel_type)" by (cases a)
  show ?case
  proof (cases "clean_str (py_get pf field_key)")
    case None
    with Cons show ?thesis by (simp add: a)
  next
    case (Some loc)
    from Cons.prems have "ordered (location_pattern loc # seen) (location_stmts pn pf lmap)"
      by (intro Cons.IH) simp
    with Some Cons.prems show ?thesis
      by (simp add: a location_stmt_def located_stmt_def)
  qed
qed

lemma ordered_binding_stmts:
  assumes "record_pattern R rid \<in> set seen"
    and "pname \<noteq> None \<longrightarrow> person_pattern (the pname) \<in> set seen"
    and "oname \<noteq> None \<longrightarrow> org_pattern (the oname) \<in> set seen"
  shows "ordered seen (binding_stmts R rid pname oname pf)"
proof (cases pname)
  case None
  then show ?thesis by (simp add: binding_stmts_def)
next
  case (Some pn)
  with assms(2) have p: "person_pattern pn \<in> set seen" by simp
  have tail: "ordered seen (case oname of None \<Rightarrow> [] | Some orgn \<Rightarrow> [assoc_stmt pn orgn])"
    using assms(3) p by (cases oname) (simp_all add: assoc_stmt_def)
  have "ordered seen (location_stmts pn pf (LOCATION_REL_MAP R) @
          (case oname of None \<Rightarrow> [] | Some orgn \<Rightarrow> [assoc_stmt pn orgn]))"
    using ordered_location_stmts[OF p] tail by (rule ordered_append)
  with Some assms(1) p show ?thesis
    by (simp add: binding_stmts_def describes_stmt_def)
qed

lemma ordered_entity_stmts:
  "ordered [record_pattern R rid] (entity_stmts R rid pf orgf)"
proof -
  let ?pn = "clean_str (py_get pf ''name'')"
  let ?on = "clean_str (py_get orgf ''name'')"
  let ?seen = "(case ?on of None \<Rightarrow> [] | Some orgn \<Rightarrow> [org_pattern orgn]) @
               (case ?pn of None \<Rightarrow> [] | Some pn \<Rightarrow> [person_pattern pn]) @
               [record_pattern R rid]"
  have b: "ordered ?seen (binding_stmts R rid ?pn ?on pf)"
    by (rule ordered_binding_stmts) (auto split: option.splits)
  show ?thesis
    unfolding entity_stmts_def
    using b by (auto simp: person_stmt_def org_stmt_def split: option.splits)
qed

lemma ordered_row_stmts: "ordered [] (row_stmts R re_search row)"
proof -
  obtain idx c where row: "row = (idx, c)" by (cases row)
  show ?thesis
    using ordered_entity_stmts[of R "RECORD_ID_PREFIX R @ str_nat (idx + 1)"]
    by (auto simp: row row_stmts_def record_stmt_def split: option.splits sum.splits)
qed

lemma ordered_rows_stmts: "ordered [] (rows_stmts R re_search rows)"
  by (induction rows) (auto intro: ordered_append ordered_row_stmts split: option.splits)

lemma store_sim_labels: "store_sim st st' \<Longrightarrow> map labels (nodes st') = map labels (nodes st)"
  unfolding store_sim_def
  by (auto simp: list_eq_iff_nth_eq list_all2_conv_all_nth node_sim_def)

lemma store_sim_shape:
  "store_sim st st' \<Longrightarrow>
   map (\<lambda>e. (src e, dst e, rtype e)) (edges st') = map (\<lambda>e. (src e, dst e, rtype e)) (edges st)"
  unfolding store_sim_def
  by (auto simp: list_eq_iff_nth_eq list_all2_conv_all_nth edge_sim_def)

text \<open>Processing the same rows twice, for rows with pairwise distinct index values.\<close>

lemma main_loop_twice:
  assumes "distinct (map fst rows)"
  shows "let (st1, e1) = main_loop R re_search clk rows st0;
             (st2, e2) = main_loop R re_search clk rows st1
         in e2 = e1 \<and>
            length (nodes st2) = length (nodes st1) \<and>
            length (edges st2) = length (edges st1) \<and>
            map labels (nodes st2) = map labels (nodes st1) \<and>
            map (\<lambda>e. (src e, dst e, rtype e)) (edges st2) =
              map (\<lambda>e. (src e, dst e, rtype e)) (edges st1) \<and>
            (\<forall>i < length (nodes st1). \<forall>k. k \<noteq> ''updated_at'' \<longrightarrow>
               props (nodes st2 ! i) k = props (nodes st1 ! i) k) \<and>
            (\<forall>i < length (edges st1). \<forall>k. k \<noteq> ''last_seen'' \<longrightarrow>
               eprops (edges st2 ! i) k = eprops (edges st1 ! i) k)"
proof -
  let ?ds = "rows_stmts R re_search rows"
  let ?st1 = "run clk ?ds st0"
  let ?st2 = "run clk ?ds ?st1"
  have ok: "\<forall>d \<in> set ?ds. stmt_ok R d"
    using rows_stmts_program program_stmt_ok by blast
  have cmp: "\<forall>d \<in> set ?ds. \<forall>d' \<in> set ?ds. compat d d'"
    using rows_stmts_program program_stmt_compat[OF assms] by blast
  have sim: "store_sim ?st1 ?st2"
    using ordered_rows_stmts ok cmp by (rule run_twice)
  then have n: "list_all2 node_sim (nodes ?st1) (nodes ?st2)"
    and e: "list_all2 edge_sim (edges ?st1) (edges ?st2)"
    by (simp_all add: store_sim_def)
  have "length (nodes ?st2) = length (nodes ?st1)"
    using n by (simp add: list_all2_lengthD)
  moreover have "length (edges ?st2) = length (edges ?st1)"
    using e by (simp add: list_all2_lengthD)
  moreover have "\<forall>i < length (nodes ?st1). \<forall>k. k \<noteq> ''updated_at'' \<longrightarrow>
               props (nodes ?st2 ! i) k = props (nodes ?st1 ! i) k"
    using n by (auto simp: list_all2_conv_all_nth node_sim_def)
  moreover have "\<forall>i < length (edges ?st1). \<forall>k. k \<noteq> ''last_seen'' \<longrightarrow>
               eprops (edges ?st2 ! i) k = eprops (edges ?st1 ! i) k"
    using e by (auto simp: list_all2_conv_all_nth edge_sim_def)
  ultimately show ?thesis
    using store_sim_labels[OF sim] store_sim_shape[OF sim]
    by (simp add: main_loop_run)
qed

lemma distinct_load_descriptions: "distinct (map fst (load_descriptions sheet))"
  unfolding load_descriptions_def
  by (rule distinct_map_filter) (simp add: map_fst_enumerate)

text \<open>
  C1. Take any store and any sheet, and run \<open>main\<close> twice in a row. The second run ends as
  the first did (normally, or with the same exception at the same row) and creates
  nothing: the store holds the same nodes with the same labels and the same
  relationships with the same end points and types, so every count is the same; node by
  node every property other than \<open>updated_at\<close>, and relationship by relationship every
  property other than \<open>last_seen\<close>, has the value it had after the first run.
\<close>

theorem reprocessing_is_idempotent:
  "let (st1, e1) = main R re_search clk sheet st0;
       (st2, e2) = main R re_search clk sheet st1
   in e2 = e1 \<and>
      length (nodes st2) = length (nodes st1) \<and>
      length (edges st2) = length (edges st1) \<and>
      map labels (nodes st2) = map labels (nodes st1) \<and>
      map (\<lambda>e. (src e, dst e, rtype e)) (edges st2) =
        map (\<lambda>e. (src e, dst e, rtype e)) (edges st1) \<and>
      (\<forall>i < length (nodes st1). \<forall>k. k \<noteq> ''updated_at'' \<longrightarrow>
         props (nodes st2 ! i) k = props (nodes st1 ! i) k) \<and>
      (\<forall>i < length (edges st1). \<forall>k. k \<noteq> ''last_seen'' \<longrightarrow>
         eprops (edges st2 ! i) k = eprops (edges st1 ! i) k)"
  unfolding main_def by (rule main_loop_twice[OF distinct_load_descriptions])

theorem reprocessing_is_idempotent_witness:
  "let (st1, e1) = main ex_rules ex_search ex_clock ex_sheet empty_store;
       (st2, e2) = main ex_rules ex_search ex_clock ex_sheet st1
   in e2 = e1 \<and>
      length (nodes st2) = length (nodes st1) \<and>
      length (edges st2) = length (edges st1) \<and>
      map labels (nodes st2) = map labels (nodes st1) \<and>
      map (\<lambda>e. (src e, dst e, rtype e)) (edges st2) =
        map (\<lambda>e. (src e, dst e, rtype e)) (edges st1) \<and>
      (\<forall>i < length (nodes st1). \<forall>k. k \<noteq> ''updated_at'' \<longrightarrow>
         props (nodes st2 ! i) k = props (nodes st1 ! i) k) \<and>
      (\<forall>i < length (edges st1). \<forall>k. k \<noteq> ''last_seen'' \<longrightarrow>
         eprops (edges st2 ! i) k = eprops (edges st1 ! i) k)"
  by (rule reprocessing_is_idempotent)

section \<open>What a run keeps\<close>

lemma step_nodes [simp]: "nodes (write_stmt clk (exec d) st) = nodes (exec d (clk (writes st)) st)"
  by (simp add: write_stmt_def)

lemma step_edges [simp]: "edges (write_stmt clk (exec d) st) = edges (exec d (clk (writes st)) st)"
  by (simp add: write_stmt_def)

lemma exec_edges_length_mono: "length (edges st) \<le> length (edges (exec d now st))"
  by (cases d) simp_all

lemma exec_edge_shape:
  assumes "i < length (edges st)"
  shows "src (edges (exec d now st) ! i) = src (edges st ! i) \<and>
         dst (edges (exec d now st) ! i) = dst (edges st ! i) \<and>
         rtype (edges (exec d now st) ! i) = rtype (edges st ! i)"
proof (cases d)
  case (NodeStmt P cr ow fl)
  then show ?thesis by simp
next
  case (RelStmt P1 P2 t cr touch)
  with assms show ?thesis
    by (simp add: exec_rel_edges nth_append touch_edge_def del: exec.simps)
qed

lemma run_length_mono: "length (nodes st) \<le> length (nodes (run clk ds st))"
proof (induction ds arbitrary: st)
  case Nil
  show ?case by simp
next
  case (Cons d ds)
  have "length (nodes st) \<le> length (nodes (write_stmt clk (exec d) st))"
    by (simp add: exec_length_mono del: exec.simps)
  also have "\<dots> \<le> length (nodes (run clk ds (write_stmt clk (exec d) st)))"
    by (rule Cons.IH)
  finally show ?case by simp
qed

lemma run_edges_length_mono: "length (edges st) \<le> length (edges (run clk ds st))"
proof (induction ds arbitrary: st)
  case Nil
  show ?case by simp
next
  case (Cons d ds)
  have "length (edges st) \<le> length (edges (write_stmt clk (exec d) st))"
    by (simp add: exec_edges_length_mono del: exec.simps)
  also have "\<dots> \<le> length (edges (run clk ds (write_stmt clk (exec d) st)))"
    by (rule Cons.IH)
  finally show ?case by simp
qed

lemma run_labels:
  "i < length (nodes st) \<Longrightarrow> labels (nodes (run clk ds st) ! i) = labels (nodes st ! i)"
proof (induction ds arbitrary: st)
  case Nil
  show ?case by simp
next
  case (Cons d ds)
  let ?st' = "write_stmt clk (exec d) st"
  from Cons.prems have i': "i < length (nodes ?st')"
    using exec_length_mono[of st d "clk (writes st)"] by simp
  from Cons.IH[OF i'] Cons.prems show ?case
    by (simp add: exec_labels del: exec.simps)
qed

lemma run_id_props:
  assumes "\<forall>d \<in> set ds. stmt_ok R d" and "i < length (nodes st)" and "k \<in> set id_keys"
  shows "props (nodes (run clk ds st) ! i) k = props (nodes st ! i) k"
  using assms(1,2)
proof (induction ds arbitrary: st)
  case Nil
  show ?case by simp
next
  case (Cons d ds)
  let ?st' = "write_stmt clk (exec d) st"
  from Cons.prems have i': "i < length (nodes ?st')"
    using exec_length_mono[of st d "clk (writes st)"] by simp
  from Cons.prems have okd: "stmt_ok R d" and okds: "\<forall>d \<in> set ds. stmt_ok R d" by simp_all
  from Cons.IH[OF okds i'] exec_id_props[OF okd Cons.prems(2) assms(3)] show ?case
    by (simp del: exec.simps)
qed

lemma run_matches_old:
  assumes "\<forall>d \<in> set ds. stmt_ok R d" and "pat_ok R P" and "i < length (nodes st)"
  shows "matches P (nodes (run clk ds st) ! i) = matches P (nodes st ! i)"
proof (rule matches_cong)
  show "labels (nodes (run clk ds st) ! i) = labels (nodes st ! i)"
    using assms(3) by (rule run_labels)
next
  fix k
  assume "k \<in> fst ` set (snd P)"
  with pat_ok_keys[OF assms(2)] have "k \<in> set id_keys" by blast
  with assms(1,3) show "props (nodes (run clk ds st) ! i) k = props (nodes st ! i) k"
    by (rule run_id_props)
qed

lemma run_has_match:
  assumes "\<forall>d \<in> set ds. stmt_ok R d" and "pat_ok R P" and "has_match P st"
  shows "has_match P (run clk ds st)"
proof -
  from assms(3) obtain i where i: "i < length (nodes st)" "matches P (nodes st ! i)"
    by (auto simp: has_match_nth)
  with run_matches_old[OF assms(1,2) i(1), of clk] run_length_mono[of st clk ds]
  show ?thesis
    unfolding has_match_nth by (metis less_le_trans)
qed

lemma run_edge_shape:
  "i < length (edges st) \<Longrightarrow>
   src (edges (run clk ds st) ! i) = src (edges st ! i) \<and>
   dst (edges (run clk ds st) ! i) = dst (edges st ! i) \<and>
   rtype (edges (run clk ds st) ! i) = rtype (edges st ! i)"
proof (induction ds arbitrary: st)
  case Nil
  show ?case by simp
next
  case (Cons d ds)
  let ?st' = "write_stmt clk (exec d) st"
  from Cons.prems have i': "i < length (edges ?st')"
    using exec_edges_length_mono[of st d "clk (writes st)"] by simp
  from Cons.IH[OF i'] exec_edge_shape[OF Cons.prems] show ?case
    by (simp del: exec.simps)
qed

lemma run_node_stmt_has_match:
  assumes "\<forall>d \<in> set ds. stmt_ok R d" and "NodeStmt P cr ow fl \<in> set ds"
  shows "has_match P (run clk ds st)"
  using assms
proof (induction ds arbitrary: st)
  case Nil
  then show ?case by simp
next
  case (Cons d ds)
  let ?st' = "write_stmt clk (exec d) st"
  from Cons.prems have okd: "stmt_ok R d" and okds: "\<forall>d \<in> set ds. stmt_ok R d" by simp_all
  show ?case
  proof (cases "NodeStmt P cr ow fl \<in> set ds")
    case True
    with Cons.IH[OF okds] show ?thesis by simp
  next
    case False
    with Cons.prems(2) have d: "d = NodeStmt P cr ow fl" by simp
    with okd have "sat (NodeStmt P cr ow fl) ?st'"
      by (auto intro: step_sat_established simp del: sat.simps stmt_ok.simps)
    then have "has_match P ?st'" by simp
    moreover from okd d have "pat_ok R P" by simp
    ultimately have "has_match P (run clk ds ?st')"
      using okds by (auto intro: run_has_match)
    then show ?thesis by simp
  qed
qed

text \<open>What a run adds: every new node is the node of a \<open>MERGE\<close> of the run, every new
  relationship joins nodes matched by one of its relationship statements.\<close>

lemma exec_new_node:
  assumes "length (nodes st) \<le> i" and "i < length (nodes (exec d now st))"
  shows "\<exists>P cr ow fl. d = NodeStmt P cr ow fl \<and> \<not> has_match P st \<and>
           nodes (exec d now st) ! i = \<lparr>labels = fst P, props = cr now\<rparr>"
proof (cases d)
  case (NodeStmt P cr ow fl)
  with assms have nm: "\<not> has_match P st" and i: "i = length (nodes st)"
    by (auto split: if_splits)
  with NodeStmt show ?thesis
    by (simp add: exec_node_new del: exec.simps)
next
  case (RelStmt P1 P2 t cr touch)
  with assms show ?thesis by simp
qed

lemma run_new_node:
  assumes "\<forall>d \<in> set ds. stmt_ok R d"
    and "length (nodes st) \<le> i" and "i < length (nodes (run clk ds st))"
  shows "\<exists>P cr ow fl. NodeStmt P cr ow fl \<in> set ds \<and>
           labels (nodes (run clk ds st) ! i) = fst P \<and>
           (\<forall>k \<in> set id_keys. props (nodes (run clk ds st) ! i) k = map_of (snd P) k)"
  using assms
proof (induction ds arbitrary: st)
  case Nil
  then show ?case by simp
next
  case (Cons d ds)
  let ?now = "clk (writes st)"
  let ?st' = "write_stmt clk (exec d) st"
  from Cons.prems have okd: "stmt_ok R d" and okds: "\<forall>d \<in> set ds. stmt_ok R d" by simp_all
  show ?case
  proof (cases "i < length (nodes ?st')")
    case False
    then have ge: "length (nodes ?st') \<le> i" by simp
    from Cons.prems(3) have "i < length (nodes (run clk ds ?st'))" by simp
    from Cons.IH[OF okds ge this] obtain P cr ow fl
      where h: "NodeStmt P cr ow fl \<in> set ds"
        "labels (nodes (run clk ds ?st') ! i) = fst P"
        "\<forall>k \<in> set id_keys. props (nodes (run clk ds ?st') ! i) k = map_of (snd P) k"
      by blast
    show ?thesis
      unfolding run_Cons using h
      by (intro exI[of _ P] exI[of _ cr] exI[of _ ow] exI[of _ fl]) simp
  next
    case True
    then have i': "i < length (nodes (exec d ?now st))" by simp
    from exec_new_node[OF Cons.prems(2) i'] obtain P cr ow fl
      where d: "d = NodeStmt P cr ow fl"
        and n: "nodes (exec d ?now st) ! i = \<lparr>labels = fst P, props = cr ?now\<rparr>"
      by blast
    have "labels (nodes (run clk ds ?st') ! i) = fst P"
      using run_labels[OF True, of clk ds] n by simp
    moreover have "\<forall>k \<in> set id_keys. props (nodes (run clk ds ?st') ! i) k = map_of (snd P) k"
    proof
      fix k assume k: "k \<in> set id_keys"
      from run_id_props[OF okds True k, of clk] n have
        "props (nodes (run clk ds ?st') ! i) k = cr ?now k" by simp
      with okd d k show "props (nodes (run clk ds ?st') ! i) k = map_of (snd P) k"
        by simp
    qed
    ultimately show ?thesis
      unfolding run_Cons using d
      by (intro exI[of _ P] exI[of _ cr] exI[of _ ow] exI[of _ fl]) simp
  qed
qed

lemma in_match_ids:
  "a \<in> set (match_ids (fst P) (snd P) st) = (a < length (nodes st) \<and> matches P (nodes st ! a))"
  by (auto simp: match_ids_def matches_def)

lemma exec_new_edge:
  assumes "length (edges st) \<le> i" and "i < length (edges (exec d now st))"
  shows "\<exists>P1 P2 t cr touch. d = RelStmt P1 P2 t cr touch \<and>
           rtype (edges (exec d now st) ! i) = t \<and>
           eprops (edges (exec d now st) ! i) = cr now \<and>
           src (edges (exec d now st) ! i) < length (nodes st) \<and>
           matches P1 (nodes st ! src (edges (exec d now st) ! i)) \<and>
           dst (edges (exec d now st) ! i) < length (nodes st) \<and>
           matches P2 (nodes st ! dst (edges (exec d now st) ! i))"
proof (cases d)
  case (NodeStmt P cr ow fl)
  with assms show ?thesis by simp
next
  case (RelStmt P1 P2 t cr touch)
  let ?new = "filter (\<lambda>(a, b). \<not> list_ex (edge_matches a b t) (edges st)) (matched_pairs P1 P2 st)"
  let ?j = "i - length (edges st)"
  from assms RelStmt have j: "?j < length ?new"
    by (simp add: exec_rel_edges del: exec.simps)
  with assms(1) RelStmt have e: "edges (exec d now st) ! i =
      (case ?new ! ?j of (a, b) \<Rightarrow> \<lparr>src = a, dst = b, rtype = t, eprops = cr now\<rparr>)"
    by (simp add: exec_rel_edges nth_append del: exec.simps)
  obtain a b where ab: "?new ! ?j = (a, b)" by (cases "?new ! ?j")
  from j have "?new ! ?j \<in> set ?new" by (rule nth_mem)
  with ab have "(a, b) \<in> set (matched_pairs P1 P2 st)" by simp
  then have "a < length (nodes st) \<and> matches P1 (nodes st ! a) \<and>
             b < length (nodes st) \<and> matches P2 (nodes st ! b)"
    by (simp add: matched_pairs_set in_match_ids)
  with e ab RelStmt show ?thesis by simp
qed

lemma run_new_edge:
  assumes "\<forall>d \<in> set ds. stmt_ok R d"
    and "length (edges st) \<le> i" and "i < length (edges (run clk ds st))"
  shows "\<exists>P1 P2 t cr touch. RelStmt P1 P2 t cr touch \<in> set ds \<and>
           rtype (edges (run clk ds st) ! i) = t \<and>
           src (edges (run clk ds st) ! i) < length (nodes (run clk ds st)) \<and>
           matches P1 (nodes (run clk ds st) ! src (edges (run clk ds st) ! i)) \<and>
           dst (edges (run clk ds st) ! i) < length (nodes (run clk ds st)) \<and>
           matches P2 (nodes (run clk ds st) ! dst (edges (run clk ds st) ! i))"
  using assms
proof (induction ds arbitrary: st)
  case Nil
  then show ?case by simp
next
  case (Cons d ds)
  let ?now = "clk (writes st)"
  let ?st' = "write_stmt clk (exec d) st"
  let ?fin = "run clk ds ?st'"
  from Cons.prems have okd: "stmt_ok R d" and okds: "\<forall>d \<in> set ds. stmt_ok R d" by simp_all
  show ?case
  proof (cases "i < length (edges ?st')")
    case False
    then have ge: "length (edges ?st') \<le> i" by simp
    from Cons.prems(3) have "i < length (edges ?fin)" by simp
    from Cons.IH[OF okds ge this] obtain P1 P2 t cr touch
      where h: "RelStmt P1 P2 t cr touch \<in> set ds"
        "rtype (edges ?fin ! i) = t"
        "src (edges ?fin ! i) < length (nodes ?fin)"
        "matches P1 (nodes ?fin ! src (edges ?fin ! i))"
        "dst (edges ?fin ! i) < length (nodes ?fin)"
        "matches P2 (nodes ?fin ! dst (edges ?fin ! i))"
      by blast
    show ?thesis
      unfolding run_Cons using h
      by (intro exI[of _ P1] exI[of _ P2] exI[of _ t] exI[of _ cr] exI[of _ touch]) simp
  next
    case True
    then have i': "i < length (edges (exec d ?now st))" by simp
    from exec_new_edge[OF Cons.prems(2) i'] obtain P1 P2 t cr touch
      where d: "d = RelStmt P1 P2 t cr touch"
        and t: "rtype (edges (exec d ?now st) ! i) = t"
        and a: "src (edges (exec d ?now st) ! i) < length (nodes st)"
               "matches P1 (nodes st ! src (edges (exec d ?now st) ! i))"
        and b: "dst (edges (exec d ?now st) ! i) < length (nodes st)"
               "matches P2 (nodes st ! dst (edges (exec d ?now st) ! i))"
      by blast
    from okd d have p: "pat_ok R P1" "pat_ok R P2" by simp_all
    from d have n': "nodes ?st' = nodes st" by simp
    have sh: "src (edges ?fin ! i) = src (edges (exec d ?now st) ! i)"
      "dst (edges ?fin ! i) = dst (edges (exec d ?now st) ! i)"
      "rtype (edges ?fin ! i) = rtype (edges (exec d ?now st) ! i)"
      using run_edge_shape[OF True, of clk ds] by simp_all
    have len: "length (nodes st) \<le> length (nodes ?fin)"
      using run_length_mono[of ?st' clk ds] n' by simp
    have ma: "matches P1 (nodes ?fin ! src (edges ?fin ! i))"
      using run_matches_old[OF okds p(1), of "src (edges (exec d ?now st) ! i)" ?st' clk] a n' sh
      by simp
    have mb: "matches P2 (nodes ?fin ! dst (edges ?fin ! i))"
      using run_matches_old[OF okds p(2), of "dst (edges (exec d ?now st) ! i)" ?st' clk] b n' sh
      by simp
    show ?thesis
      unfolding run_Cons using d t sh a b len ma mb
      by (intro exI[of _ P1] exI[of _ P2] exI[of _ t] exI[of _ cr] exI[of _ touch]) simp
  qed
qed

section \<open>Unresolved identities\<close>

lemma run_matches_keys:
  assumes "\<forall>d \<in> set ds. stmt_ok R d" and "fst ` set (snd P) \<subseteq> set id_keys"
    and "i < length (nodes st)"
  shows "matches P (nodes (run clk ds st) ! i) = matches P (nodes st ! i)"
proof (rule matches_cong)
  show "labels (nodes (run clk ds st) ! i) = labels (nodes st ! i)"
    using assms(3) by (rule run_labels)
next
  fix k
  assume "k \<in> fst ` set (snd P)"
  with assms(2) have "k \<in> set id_keys" by blast
  with assms(1,3) show "props (nodes (run clk ds st) ! i) k = props (nodes st ! i) k"
    by (rule run_id_props)
qed

lemma kind_keys:
  "fst ` set (snd person_kind) \<subseteq> set id_keys" "fst ` set (snd org_kind) \<subseteq> set id_keys"
  by (simp_all add: person_kind_def org_kind_def id_keys_def)

lemma exec_old_edge:
  assumes "i < length (edges st)"
  shows "edges (exec d now st) ! i = edges st ! i \<or>
         (\<exists>P1 P2 t cr touch. d = RelStmt P1 P2 t cr touch \<and> rtype (edges st ! i) = t \<and>
            dst (edges st ! i) < length (nodes st) \<and>
            matches P2 (nodes st ! dst (edges st ! i)))"
proof (cases d)
  case (NodeStmt P cr ow fl)
  then show ?thesis by simp
next
  case (RelStmt P1 P2 t cr touch)
  show ?thesis
  proof (cases "(src (edges st ! i), dst (edges st ! i)) \<in> set (matched_pairs P1 P2 st) \<and>
                rtype (edges st ! i) = t")
    case True
    then have "dst (edges st ! i) < length (nodes st) \<and> matches P2 (nodes st ! dst (edges st ! i))"
      by (simp add: matched_pairs_set in_match_ids)
    with True RelStmt show ?thesis by blast
  next
    case False
    with assms RelStmt have "edges (exec d now st) ! i = edges st ! i"
      by (auto simp add: exec_rel_edges nth_append simp del: exec.simps)
    then show ?thesis ..
  qed
qed

lemma run_old_edge:
  assumes "\<forall>d \<in> set ds. stmt_ok R d" and "i < length (edges st)"
  shows "edges (run clk ds st) ! i = edges st ! i \<or>
         (\<exists>P1 P2 t cr touch. RelStmt P1 P2 t cr touch \<in> set ds \<and> rtype (edges st ! i) = t \<and>
            dst (edges st ! i) < length (nodes (run clk ds st)) \<and>
            matches P2 (nodes (run clk ds st) ! dst (edges st ! i)))"
  using assms
proof (induction ds arbitrary: st)
  case Nil
  then show ?case by simp
next
  case (Cons d ds)
  let ?now = "clk (writes st)"
  let ?st' = "write_stmt clk (exec d) st"
  let ?fin = "run clk ds ?st'"
  from Cons.prems have okd: "stmt_ok R d" and okds: "\<forall>d \<in> set ds. stmt_ok R d" by simp_all
  have i': "i < length (edges ?st')"
    using Cons.prems(2) exec_edges_length_mono[of st d ?now] by simp
  have sh: "rtype (edges ?st' ! i) = rtype (edges st ! i)" "dst (edges ?st' ! i) = dst (edges st ! i)"
    using exec_edge_shape[OF Cons.prems(2), of d ?now] by simp_all
  from Cons.IH[OF okds i'] consider
      (same) "edges ?fin ! i = edges ?st' ! i"
    | (later) P1 P2 t cr touch where "RelStmt P1 P2 t cr touch \<in> set ds"
        "rtype (edges st ! i) = t" "dst (edges st ! i) < length (nodes ?fin)"
        "matches P2 (nodes ?fin ! dst (edges st ! i))"
    unfolding sh by blast
  then show ?case
  proof cases
    case later
    show ?thesis
      unfolding run_Cons
      by (rule disjI2, intro exI[of _ P1] exI[of _ P2] exI[of _ t] exI[of _ cr] exI[of _ touch])
        (use later in simp)
  next
    case same
    from exec_old_edge[OF Cons.prems(2), of d ?now] consider
        (keep) "edges (exec d ?now st) ! i = edges st ! i"
      | (now) P1 P2 t cr touch where "d = RelStmt P1 P2 t cr touch" "rtype (edges st ! i) = t"
          "dst (edges st ! i) < length (nodes st)" "matches P2 (nodes st ! dst (edges st ! i))"
      by blast
    then show ?thesis
    proof cases
      case keep
      with same show ?thesis by simp
    next
      case now
      from okd now(1) have p: "pat_ok R P2" by simp
      from now(1) have n': "nodes ?st' = nodes st" by simp
      have len: "length (nodes st) \<le> length (nodes ?fin)"
        using run_length_mono[of ?st' clk ds] n' by simp
      have m: "matches P2 (nodes ?fin ! dst (edges st ! i))"
        using run_matches_old[OF okds p, of "dst (edges st ! i)" ?st' clk] now(3,4) n' by simp
      show ?thesis
        unfolding run_Cons
        by (rule disjI2, intro exI[of _ P1] exI[of _ P2] exI[of _ t] exI[of _ cr] exI[of _ touch])
          (use now len m in simp)
    qed
  qed
qed

lemma run_node_stmts_edges:
  "\<forall>d \<in> set ds. \<exists>P cr ow fl. d = NodeStmt P cr ow fl \<Longrightarrow> edges (run clk ds st) = edges st"
proof (induction ds arbitrary: st)
  case Nil
  show ?case by simp
next
  case (Cons d ds)
  then obtain P cr ow fl where "d = NodeStmt P cr ow fl" by auto
  with Cons show ?case by simp
qed

lemma row_stmts_ok: "\<forall>d \<in> set (row_stmts R re_search row). stmt_ok R d"
proof
  fix d
  assume "d \<in> set (row_stmts R re_search row)"
  moreover have "row \<in> set [row]" by simp
  ultimately have "program_stmt R [row] d"
    using row_stmts_program by blast
  then show "stmt_ok R d" by (rule program_stmt_ok)
qed

lemma row_stmts_compat:
  "\<forall>d \<in> set (row_stmts R re_search row). \<forall>d' \<in> set (row_stmts R re_search row). compat d d'"
proof (intro ballI)
  fix d d'
  assume d: "d \<in> set (row_stmts R re_search row)" and d': "d' \<in> set (row_stmts R re_search row)"
  have r: "row \<in> set [row]" by simp
  have "program_stmt R [row] d" "program_stmt R [row] d'"
    using row_stmts_program[OF r d] row_stmts_program[OF r d'] by simp_all
  moreover have "distinct (map fst [row])" by simp
  ultimately show "compat d d'"
    using program_stmt_compat by blast
qed

lemma row_stmts_sat:
  assumes "d \<in> set (row_stmts R re_search row)"
  shows "sat d (run clk (row_stmts R re_search row) st)"
proof -
  have "\<forall>P \<in> set []. pat_ok R P \<and> has_match P st" by simp
  with ordered_row_stmts have "\<forall>d \<in> set (row_stmts R re_search row).
      sat d (run clk (row_stmts R re_search row) st)"
    using row_stmts_ok row_stmts_compat by (rule run_sat)
  with assms show ?thesis by blast
qed

lemma row_stmts_resolved:
  assumes "clean_str c = Some description"
    and "extract_fields R re_search description = Inr fs"
  shows "row_stmts R re_search (idx, c) =
         record_stmt R (RECORD_ID_PREFIX R @ str_nat (idx + 1)) (idx + 1) description #
         entity_stmts R (RECORD_ID_PREFIX R @ str_nat (idx + 1))
           (get_group fs ''person'') (get_group fs ''organization'')"
    and "row_error R re_search (idx, c) = None"
  using assms by (simp_all add: row_stmts_def row_error_def)

section \<open>Rows without a person, rows without an organization\<close>

lemma binding_stmts_None [simp]: "binding_stmts R rid None oname pf = []"
  by (simp add: binding_stmts_def)

lemma sat_rel_edge:
  assumes "sat (RelStmt P1 P2 t cr touch) st"
  shows "\<exists>i j. i < length (nodes st) \<and> j < length (nodes st) \<and>
           matches P1 (nodes st ! i) \<and> matches P2 (nodes st ! j) \<and>
           list_ex (edge_matches i j t) (edges st)"
proof -
  from assms obtain i j where i: "i < length (nodes st)" "matches P1 (nodes st ! i)"
    and j: "j < length (nodes st)" "matches P2 (nodes st ! j)"
    by (auto simp: has_match_nth)
  then have "(i, j) \<in> set (matched_pairs P1 P2 st)"
    by (simp add: matched_pairs_set in_match_ids)
  with assms have "list_ex (edge_matches i j t) (edges st)" by auto
  with i j show ?thesis by blast
qed

lemma not_person_kind:
  "matches (record_pattern R rid) \<lparr>labels = ls, props = m\<rparr> \<Longrightarrow>
   m ''entity_type'' = map_of (snd (record_pattern R rid)) ''entity_type'' \<Longrightarrow>
   \<not> matches person_kind \<lparr>labels = ls, props = m\<rparr>"
  by (simp add: matches_def node_matches_def record_pattern_def person_kind_def)

lemma kind_of_new_node:
  assumes "labels n = fst P" and "props n ''entity_type'' = map_of (snd P) ''entity_type''"
  shows "P = record_pattern R rid \<Longrightarrow> \<not> matches person_kind n \<and> \<not> matches org_kind n"
    and "P = person_pattern name \<Longrightarrow> \<not> matches org_kind n"
    and "P = org_pattern name \<Longrightarrow> \<not> matches person_kind n"
    and "P = location_pattern name \<Longrightarrow> \<not> matches person_kind n \<and> \<not> matches org_kind n"
  using assms
  by (simp_all add: matches_def node_matches_def record_pattern_def person_pattern_def
      org_pattern_def location_pattern_def person_kind_def org_kind_def)

lemma not_org_target:
  assumes "(\<exists>name. P = person_pattern name) \<or> (\<exists>name. P = location_pattern name)"
    and "matches P n"
  shows "\<not> matches org_kind n"
  using assms
  by (auto simp: matches_def node_matches_def person_pattern_def location_pattern_def org_kind_def)

lemma location_stmts_cases:
  assumes "d \<in> set (location_stmts pn pf lmap)"
  shows "\<exists>field_key rel_type loc. (field_key, rel_type) \<in> set lmap \<and>
           clean_str (py_get pf field_key) = Some loc \<and>
           (d = location_stmt loc \<or> d = located_stmt pn loc rel_type)"
  using assms
proof (induction lmap)
  case Nil
  then show ?case by simp
next
  case (Cons a lmap)
  obtain field_key rel_type where a: "a = (field_key, rel_type)" by (cases a)
  show ?case
  proof (cases "clean_str (py_get pf field_key)")
    case None
    with Cons.prems have "d \<in> set (location_stmts pn pf lmap)" by (simp add: a)
    from Cons.IH[OF this] show ?thesis by auto
  next
    case (Some loc)
    with Cons.prems have "d = location_stmt loc \<or> d = located_stmt pn loc rel_type \<or>
        d \<in> set (location_stmts pn pf lmap)"
      by (simp add: a)
    then show ?thesis
    proof (elim disjE)
      assume "d \<in> set (location_stmts pn pf lmap)"
      from Cons.IH[OF this] show ?thesis by auto
    next
      assume "d = location_stmt loc"
      with Some a show ?thesis by auto
    next
      assume "d = located_stmt pn loc rel_type"
      with Some a show ?thesis by auto
    qed
  qed
qed

lemma location_stmts_nodes:
  assumes "NodeStmt P cr ow fl \<in> set (location_stmts pn pf lmap)"
  shows "\<exists>loc. P = location_pattern loc"
  using location_stmts_cases[OF assms]
  by (auto simp: location_stmt_def located_stmt_def)

lemma location_stmts_rels:
  assumes "RelStmt P1 P2 t cr touch \<in> set (location_stmts pn pf lmap)"
  shows "\<exists>loc. P2 = location_pattern loc"
  using location_stmts_cases[OF assms]
  by (auto simp: location_stmt_def located_stmt_def)

text \<open>The statements of a row whose person name is not resolved.\<close>

lemma entity_stmts_no_person:
  assumes "clean_str (py_get pf ''name'') = None"
  shows "entity_stmts R rid pf orgf =
         (case clean_str (py_get orgf ''name'') of None \<Rightarrow> [] | Some orgn \<Rightarrow> [org_stmt orgn orgf])"
  using assms by (simp add: entity_stmts_def)

lemma no_person_nodes:
  assumes "clean_str (py_get pf ''name'') = None"
    and "NodeStmt P cr ow fl \<in> set (record_stmt R rid row description # entity_stmts R rid pf orgf)"
  shows "(\<exists>rid. P = record_pattern R rid) \<or> (\<exists>name. P = org_pattern name)"
  using assms(2) unfolding entity_stmts_no_person[OF assms(1)]
  by (auto simp: record_stmt_def org_stmt_def split: option.splits)

lemma no_person_all_nodes:
  assumes "clean_str (py_get pf ''name'') = None"
  shows "\<forall>d \<in> set (record_stmt R rid row description # entity_stmts R rid pf orgf).
           \<exists>P cr ow fl. d = NodeStmt P cr ow fl"
  unfolding entity_stmts_no_person[OF assms]
  by (auto simp: record_stmt_def org_stmt_def split: option.splits)

text \<open>
  C6. Take a row whose description is not empty and whose fields are extracted without
  an exception, and suppose that no person name is resolved (the \<open>name\<close> field of the
  person group is absent, or empty after trimming). Then processing the row raises
  nothing, and the loop goes on with the following rows; no relationship is created or
  touched; no node with the labels and type of a person is added, and the nodes already
  there are persons exactly as before; and the organization group is still processed: if
  an organization name is resolved, a node for it is in the store afterwards.
\<close>

theorem unresolved_person_is_skipped:
  assumes "clean_str c = Some description"
    and "extract_fields R re_search description = Inr fs"
    and "clean_str (py_get (get_group fs ''person'') ''name'') = None"
  shows "let (st', e) = process_row R re_search clk (idx, c) st
         in e = None \<and>
            main_loop R re_search clk ((idx, c) # rows) st = main_loop R re_search clk rows st' \<and>
            edges st' = edges st \<and>
            (\<forall>i < length (nodes st'). matches person_kind (nodes st' ! i) \<longrightarrow> i < length (nodes st)) \<and>
            (\<forall>i < length (nodes st).
               matches person_kind (nodes st' ! i) = matches person_kind (nodes st ! i)) \<and>
            (\<forall>orgn. clean_str (py_get (get_group fs ''organization'') ''name'') = Some orgn \<longrightarrow>
               has_match (org_pattern orgn) st')"
proof -
  let ?rid = "RECORD_ID_PREFIX R @ str_nat (idx + 1)"
  let ?pf = "get_group fs ''person''"
  let ?of = "get_group fs ''organization''"
  let ?ds = "record_stmt R ?rid (idx + 1) description # entity_stmts R ?rid ?pf ?of"
  let ?st' = "run clk ?ds st"
  have ds: "row_stmts R re_search (idx, c) = ?ds" and err: "row_error R re_search (idx, c) = None"
    using row_stmts_resolved[OF assms(1,2)] by simp_all
  have pr: "process_row R re_search clk (idx, c) st = (?st', None)"
    by (simp add: process_row_run ds err)
  have ok: "\<forall>d \<in> set ?ds. stmt_ok R d"
    using row_stmts_ok[of R re_search "(idx, c)"] unfolding ds .
  have 1: "main_loop R re_search clk ((idx, c) # rows) st = main_loop R re_search clk rows ?st'"
    by (simp add: pr)
  have 2: "edges ?st' = edges st"
    using no_person_all_nodes[OF assms(3)] by (rule run_node_stmts_edges)
  have 3: "\<forall>i < length (nodes ?st'). matches person_kind (nodes ?st' ! i) \<longrightarrow> i < length (nodes st)"
  proof (intro allI impI, rule ccontr)
    fix i
    assume i: "i < length (nodes ?st')" and m: "matches person_kind (nodes ?st' ! i)"
      and "\<not> i < length (nodes st)"
    then have "length (nodes st) \<le> i" by simp
    from run_new_node[OF ok this i] obtain P cr ow fl where
      P: "NodeStmt P cr ow fl \<in> set ?ds" and l: "labels (nodes ?st' ! i) = fst P"
      and p: "\<forall>k \<in> set id_keys. props (nodes ?st' ! i) k = map_of (snd P) k"
      by blast
    from p have et: "props (nodes ?st' ! i) ''entity_type'' = map_of (snd P) ''entity_type''"
      by (simp add: id_keys_def)
    from no_person_nodes[OF assms(3) P] kind_of_new_node[OF l et] m show False
      by blast
  qed
  have 4: "\<forall>i < length (nodes st).
             matches person_kind (nodes ?st' ! i) = matches person_kind (nodes st ! i)"
    using run_matches_keys[OF ok kind_keys(1)] by blast
  have 5: "\<forall>orgn. clean_str (py_get ?of ''name'') = Some orgn \<longrightarrow> has_match (org_pattern orgn) ?st'"
  proof (intro allI impI)
    fix orgn
    assume "clean_str (py_get ?of ''name'') = Some orgn"
    then have "org_stmt orgn ?of \<in> set ?ds"
      by (simp add: entity_stmts_def)
    then show "has_match (org_pattern orgn) ?st'"
      unfolding org_stmt_def using ok by (rule run_node_stmt_has_match[rotated])
  qed
  from 1 2 3 4 5 show ?thesis
    unfolding pr by simp
qed


theorem unresolved_person_is_skipped_witness:
  "clean_str (Val ''Employer: Acme'') = Some ''Employer: Acme'' \<and>
   extract_fields ex_rules ex_search ''Employer: Acme'' =
     Inr [(''person'', []), (''organization'', [(''name'', ''Acme'')])] \<and>
   clean_str (py_get (get_group [(''person'', []), (''organization'', [(''name'', ''Acme'')])]
     ''person'') ''name'') = None \<and>
   (let (st', e) = process_row ex_rules ex_search ex_clock (0, Val ''Employer: Acme'') empty_store
    in e = None \<and> edges st' = [] \<and>
       (\<forall>i < length (nodes st'). \<not> matches person_kind (nodes st' ! i)) \<and>
       has_match (org_pattern ''Acme'') st')"
proof -
  let ?fs = "[(''person'', []), (''organization'', [(''name'', ''Acme'')])]"
  have h1: "clean_str (Val ''Employer: Acme'') = Some ''Employer: Acme''"
    by code_simp
  have h2: "extract_fields ex_rules ex_search ''Employer: Acme'' = Inr ?fs"
    by code_simp
  have h3: "clean_str (py_get (get_group ?fs ''person'') ''name'') = None"
    by code_simp
  have h4: "clean_str (py_get (get_group ?fs ''organization'') ''name'') = Some ''Acme''"
    by code_simp
  show ?thesis
    using unresolved_person_is_skipped[OF h1 h2 h3, where clk = ex_clock and idx = 0 and st = empty_store and rows = "[]"] h1 h2 h3 h4
    by (auto simp: empty_store_def split: prod.splits)
qed

text \<open>
  C9. Take a row whose description is not empty and whose fields are extracted without an
  exception. If no organization field is extracted, no organization name is resolved. If
  no organization name is resolved, no node with the labels and type of an organization is
  added. If the person name or the organization name is not resolved, no associated-with
  relationship (type \<open>ASSOCIATED_WITH_ORG\<close>, to an organization node) is created or touched.
  If a person name is resolved, then whatever the organization fields are, the store
  afterwards holds the record node, a person node for the name, and a \<open>DESCRIBES\<close>
  relationship from the one to the other; if both names are resolved, it holds an
  \<open>ASSOCIATED_WITH_ORG\<close> relationship from the person node to the organization node.
\<close>

theorem organization_is_optional:
  assumes "clean_str c = Some description"
    and "extract_fields R re_search description = Inr fs"
  shows "let pname = clean_str (py_get (get_group fs ''person'') ''name'');
             oname = clean_str (py_get (get_group fs ''organization'') ''name'');
             rid = RECORD_ID_PREFIX R @ str_nat (idx + 1);
             st' = fst (process_row R re_search clk (idx, c) st)
         in (get_group fs ''organization'' = [] \<longrightarrow> oname = None) \<and>
            (oname = None \<longrightarrow>
               (\<forall>i < length (nodes st'). matches org_kind (nodes st' ! i) \<longrightarrow> i < length (nodes st))) \<and>
            (pname = None \<or> oname = None \<longrightarrow>
               (\<forall>i < length (edges st'). assoc_edge st' (edges st' ! i) \<longrightarrow>
                  i < length (edges st) \<and> edges st' ! i = edges st ! i)) \<and>
            (\<forall>pn. pname = Some pn \<longrightarrow>
               (\<exists>i j. i < length (nodes st') \<and> j < length (nodes st') \<and>
                  matches (record_pattern R rid) (nodes st' ! i) \<and>
                  matches (person_pattern pn) (nodes st' ! j) \<and>
                  list_ex (edge_matches i j ''DESCRIBES'') (edges st'))) \<and>
            (\<forall>pn orgn. pname = Some pn \<and> oname = Some orgn \<longrightarrow>
               (\<exists>i j. i < length (nodes st') \<and> j < length (nodes st') \<and>
                  matches (person_pattern pn) (nodes st' ! i) \<and>
                  matches (org_pattern orgn) (nodes st' ! j) \<and>
                  list_ex (edge_matches i j ''ASSOCIATED_WITH_ORG'') (edges st')))"
proof -
  let ?rid = "RECORD_ID_PREFIX R @ str_nat (idx + 1)"
  let ?pf = "get_group fs ''person''"
  let ?of = "get_group fs ''organization''"
  let ?pname = "clean_str (py_get ?pf ''name'')"
  let ?oname = "clean_str (py_get ?of ''name'')"
  let ?ds = "record_stmt R ?rid (idx + 1) description # entity_stmts R ?rid ?pf ?of"
  let ?st' = "run clk ?ds st"
  have ds: "row_stmts R re_search (idx, c) = ?ds"
    using row_stmts_resolved[OF assms(1,2)] by simp
  have pr: "fst (process_row R re_search clk (idx, c) st) = ?st'"
    by (simp add: process_row_run ds)
  have ok: "\<forall>d \<in> set ?ds. stmt_ok R d"
    using row_stmts_ok[of R re_search "(idx, c)"] unfolding ds .
  have sat: "\<And>d. d \<in> set ?ds \<Longrightarrow> sat d ?st'"
    using row_stmts_sat[of _ R re_search "(idx, c)" clk st] unfolding ds .
  have 1: "?of = [] \<longrightarrow> ?oname = None"
    by auto
  have 2: "?oname = None \<longrightarrow>
      (\<forall>i < length (nodes ?st'). matches org_kind (nodes ?st' ! i) \<longrightarrow> i < length (nodes st))"
  proof (intro allI impI, rule ccontr)
    fix i
    assume on: "?oname = None" and i: "i < length (nodes ?st')"
      and m: "matches org_kind (nodes ?st' ! i)" and "\<not> i < length (nodes st)"
    then have "length (nodes st) \<le> i" by simp
    from run_new_node[OF ok this i] obtain P cr ow fl where
      P: "NodeStmt P cr ow fl \<in> set ?ds" and l: "labels (nodes ?st' ! i) = fst P"
      and p: "\<forall>k \<in> set id_keys. props (nodes ?st' ! i) k = map_of (snd P) k"
      by blast
    from p have et: "props (nodes ?st' ! i) ''entity_type'' = map_of (snd P) ''entity_type''"
      by (simp add: id_keys_def)
    from P on have "(\<exists>rid. P = record_pattern R rid) \<or> (\<exists>name. P = person_pattern name) \<or>
        (\<exists>name. P = location_pattern name)"
      by (auto simp: entity_stmts_def binding_stmts_def record_stmt_def person_stmt_def
          describes_stmt_def split: option.splits dest: location_stmts_nodes)
    with kind_of_new_node[OF l et] m show False
      by blast
  qed
  have rels: "(\<exists>name. P2 = person_pattern name) \<or> (\<exists>name. P2 = location_pattern name)"
    if "?pname = None \<or> ?oname = None" and "RelStmt P1 P2 t cr touch \<in> set ?ds"
    for P1 P2 t cr touch
    using that
    by (auto simp: entity_stmts_def binding_stmts_def record_stmt_def person_stmt_def
        org_stmt_def describes_stmt_def split: option.splits dest: location_stmts_rels)
  have 3: "?pname = None \<or> ?oname = None \<longrightarrow>
      (\<forall>i < length (edges ?st'). assoc_edge ?st' (edges ?st' ! i) \<longrightarrow>
         i < length (edges st) \<and> edges ?st' ! i = edges st ! i)"
  proof (intro allI impI)
    fix i
    assume un: "?pname = None \<or> ?oname = None" and i: "i < length (edges ?st')"
      and a: "assoc_edge ?st' (edges ?st' ! i)"
    from a have org: "matches org_kind (nodes ?st' ! dst (edges ?st' ! i))"
      by (simp add: assoc_edge_def)
    have old: "i < length (edges st)"
    proof (rule ccontr)
      assume "\<not> i < length (edges st)"
      then have "length (edges st) \<le> i" by simp
      from run_new_edge[OF ok this i] obtain P1 P2 t cr touch where
        "RelStmt P1 P2 t cr touch \<in> set ?ds"
        "matches P2 (nodes ?st' ! dst (edges ?st' ! i))"
        by blast
      with rels[OF un] org not_org_target show False by blast
    qed
    have "edges ?st' ! i = edges st ! i"
    proof (rule ccontr)
      assume ne: "edges ?st' ! i \<noteq> edges st ! i"
      from run_edge_shape[OF old, of clk ?ds]
      have d: "dst (edges ?st' ! i) = dst (edges st ! i)" by simp
      from run_old_edge[OF ok old, of clk] ne obtain P1 P2 t cr touch where
        "RelStmt P1 P2 t cr touch \<in> set ?ds"
        "matches P2 (nodes ?st' ! dst (edges st ! i))"
        by blast
      with rels[OF un] org d not_org_target show False by metis
    qed
    with old show "i < length (edges st) \<and> edges ?st' ! i = edges st ! i" ..
  qed
  have 4: "\<forall>pn. ?pname = Some pn \<longrightarrow>
      (\<exists>i j. i < length (nodes ?st') \<and> j < length (nodes ?st') \<and>
         matches (record_pattern R ?rid) (nodes ?st' ! i) \<and>
         matches (person_pattern pn) (nodes ?st' ! j) \<and>
         list_ex (edge_matches i j ''DESCRIBES'') (edges ?st'))"
  proof (intro allI impI)
    fix pn
    assume "?pname = Some pn"
    then have "describes_stmt R ?rid pn \<in> set ?ds"
      by (simp add: entity_stmts_def binding_stmts_def)
    from sat[OF this] show "\<exists>i j. i < length (nodes ?st') \<and> j < length (nodes ?st') \<and>
         matches (record_pattern R ?rid) (nodes ?st' ! i) \<and>
         matches (person_pattern pn) (nodes ?st' ! j) \<and>
         list_ex (edge_matches i j ''DESCRIBES'') (edges ?st')"
      unfolding describes_stmt_def by (rule sat_rel_edge)
  qed
  have 5: "\<forall>pn orgn. ?pname = Some pn \<and> ?oname = Some orgn \<longrightarrow>
      (\<exists>i j. i < length (nodes ?st') \<and> j < length (nodes ?st') \<and>
         matches (person_pattern pn) (nodes ?st' ! i) \<and>
         matches (org_pattern orgn) (nodes ?st' ! j) \<and>
         list_ex (edge_matches i j ''ASSOCIATED_WITH_ORG'') (edges ?st'))"
  proof (intro allI impI)
    fix pn orgn
    assume "?pname = Some pn \<and> ?oname = Some orgn"
    then have "assoc_stmt pn orgn \<in> set ?ds"
      by (simp add: entity_stmts_def binding_stmts_def)
    from sat[OF this] show "\<exists>i j. i < length (nodes ?st') \<and> j < length (nodes ?st') \<and>
         matches (person_pattern pn) (nodes ?st' ! i) \<and>
         matches (org_pattern orgn) (nodes ?st' ! j) \<and>
         list_ex (edge_matches i j ''ASSOCIATED_WITH_ORG'') (edges ?st')"
      unfolding assoc_stmt_def by (rule sat_rel_edge)
  qed
  from 1 2 3 4 5 show ?thesis
    unfolding Let_def pr by blast
qed

theorem organization_is_optional_witness:
  "clean_str (Val ''NAME: Bob'') = Some ''NAME: Bob'' \<and>
   extract_fields ex_rules ex_search ''NAME: Bob'' =
     Inr [(''person'', [(''name'', ''Bob'')]), (''organization'', [])] \<and>
   (let st' = fst (process_row ex_rules ex_search ex_clock (0, Val ''NAME: Bob'') empty_store)
    in (\<forall>i < length (nodes st'). \<not> matches org_kind (nodes st' ! i)) \<and>
       (\<forall>i < length (edges st'). \<not> assoc_edge st' (edges st' ! i)) \<and>
       (\<exists>i j. i < length (nodes st') \<and> j < length (nodes st') \<and>
          matches (record_pattern ex_rules ''DESC_1'') (nodes st' ! i) \<and>
          matches (person_pattern ''Bob'') (nodes st' ! j) \<and>
          list_ex (edge_matches i j ''DESCRIBES'') (edges st')))"
proof -
  let ?fs = "[(''person'', [(''name'', ''Bob'')]), (''organization'', [])]"
  have h1: "clean_str (Val ''NAME: Bob'') = Some ''NAME: Bob''"
    by code_simp
  have h2: "extract_fields ex_rules ex_search ''NAME: Bob'' = Inr ?fs"
    by code_simp
  have h3: "clean_str (py_get (get_group ?fs ''person'') ''name'') = Some ''Bob'' \<and>
            clean_str (py_get (get_group ?fs ''organization'') ''name'') = None \<and>
            RECORD_ID_PREFIX ex_rules @ str_nat (0 + 1) = ''DESC_1''"
    by code_simp
  show ?thesis
    using organization_is_optional[OF h1 h2, where clk = ex_clock and idx = 0 and st = empty_store] h1 h2 h3
    by (simp add: Let_def empty_store_def)
qed

section \<open>Relationship upserts\<close>








section \<open>Locations\<close>

lemma connect_locations_loop_fold:
  "connect_locations_loop clk pn pf lmap st =
   fold (\<lambda>(loc_name, rel_type) s.
           connect_person_to_location clk pn loc_name rel_type (upsert_location clk loc_name s))
     (resolved_locations pf lmap) st"
proof (induction lmap arbitrary: st)
  case Nil
  show ?case by (simp add: resolved_locations_def map_filter_simps)
next
  case (Cons a lmap)
  obtain field_key rel_type where a: "a = (field_key, rel_type)" by (cases a)
  show ?case
  proof (cases "clean_str (py_get pf field_key)")
    case None
    with Cons.IH show ?thesis
      by (simp add: a resolved_locations_def map_filter_simps)
  next
    case (Some loc)
    then have "loc \<noteq> []" by (rule clean_str_nonempty)
    with Some Cons.IH show ?thesis
      by (simp add: a resolved_locations_def map_filter_simps)
  qed
qed

lemma location_stmts_member:
  assumes "(field_key, rel_type) \<in> set lmap" and "clean_str (py_get pf field_key) = Some loc"
  shows "location_stmt loc \<in> set (location_stmts pn pf lmap) \<and>
         located_stmt pn loc rel_type \<in> set (location_stmts pn pf lmap)"
  using assms(1)
proof (induction lmap)
  case Nil
  then show ?case by simp
next
  case (Cons a lmap)
  obtain f r where a: "a = (f, r)" by (cases a)
  show ?case
  proof (cases "a = (field_key, rel_type)")
    case True
    with a assms(2) show ?thesis by simp
  next
    case False
    with Cons have "location_stmt loc \<in> set (location_stmts pn pf lmap) \<and>
         located_stmt pn loc rel_type \<in> set (location_stmts pn pf lmap)"
      by simp
    then show ?thesis
      by (cases "clean_str (py_get pf f)") (simp_all add: a)
  qed
qed

lemma location_stmts_ok: "\<forall>d \<in> set (location_stmts pn pf lmap). stmt_ok R d"
  using location_stmts_program[where rows = "[]"] program_stmt_ok by blast

lemma location_stmts_compat:
  "\<forall>d \<in> set (location_stmts pn pf lmap). \<forall>d' \<in> set (location_stmts pn pf lmap). compat d d'"
proof (intro ballI)
  fix d d'
  assume "d \<in> set (location_stmts pn pf lmap)" and "d' \<in> set (location_stmts pn pf lmap)"
  then have "program_stmt R [] d" "program_stmt R [] d'"
    by (auto intro: location_stmts_program)
  moreover have "distinct (map fst ([] :: (nat \<times> cell) list))" by simp
  ultimately show "compat d d'"
    using program_stmt_compat by blast
qed

lemma matches_from_ids:
  assumes "pat_ok R P" and "labels n = fst P"
    and "\<forall>k \<in> set id_keys. props n k = map_of (snd P) k"
  shows "matches P n"
proof -
  from assms(3) have "\<And>k. k \<in> set id_keys \<Longrightarrow> props n k = map_of (snd P) k" by simp
  with assms(1) have "matches P \<lparr>labels = fst P, props = props n\<rparr>"
    by (rule new_node_matches)
  with assms(2) show ?thesis
    by (simp add: matches_def node_matches_def)
qed

text \<open>
  C8, as amended. \<open>connect_person_to_locations\<close> goes through the pairs of the location
  map in order; for a pair whose field has a value in the person fields that is not empty
  once trimmed, and for no other pair, it first upserts the location keyed by the trimmed
  value and then the relationship of the mapped type. When a person node for the name is
  in the store, every such pair has afterwards its location node, and a relationship of
  the mapped type from every node matched as the person to every node matched as the
  location. Every node the function adds is such a location node, and every relationship
  it adds has a type of the location map, from a person node to such a location node.
\<close>

theorem locations_follow_the_map:
  assumes "has_match (person_pattern pn) st"
  shows "let lmap = LOCATION_REL_MAP R;
             st' = connect_person_to_locations R clk pn pf st
         in st' = fold (\<lambda>(loc_name, rel_type) s.
                     connect_person_to_location clk pn loc_name rel_type
                       (upsert_location clk loc_name s))
                    (resolved_locations pf lmap) st \<and>
            (\<forall>(field_key, rel_type) \<in> set lmap. \<forall>loc.
               clean_str (py_get pf field_key) = Some loc \<longrightarrow>
               has_match (location_pattern loc) st' \<and>
               (\<forall>a b. a < length (nodes st') \<and> matches (person_pattern pn) (nodes st' ! a) \<and>
                      b < length (nodes st') \<and> matches (location_pattern loc) (nodes st' ! b) \<longrightarrow>
                      list_ex (edge_matches a b rel_type) (edges st'))) \<and>
            (\<forall>i. length (nodes st) \<le> i \<and> i < length (nodes st') \<longrightarrow>
               (\<exists>(field_key, rel_type) \<in> set lmap. \<exists>loc.
                  clean_str (py_get pf field_key) = Some loc \<and>
                  matches (location_pattern loc) (nodes st' ! i))) \<and>
            (\<forall>i. length (edges st) \<le> i \<and> i < length (edges st') \<longrightarrow>
               (\<exists>(field_key, rel_type) \<in> set lmap. \<exists>loc.
                  clean_str (py_get pf field_key) = Some loc \<and>
                  rtype (edges st' ! i) = rel_type \<and>
                  matches (person_pattern pn) (nodes st' ! src (edges st' ! i)) \<and>
                  matches (location_pattern loc) (nodes st' ! dst (edges st' ! i))))"
proof -
  let ?lmap = "LOCATION_REL_MAP R"
  let ?ds = "location_stmts pn pf ?lmap"
  let ?st' = "run clk ?ds st"
  have st': "connect_person_to_locations R clk pn pf st = ?st'"
    by (simp add: connect_person_to_locations_def connect_locations_loop_run)
  have ok: "\<forall>d \<in> set ?ds. stmt_ok R d"
    by (rule location_stmts_ok)
  have 1: "?st' = fold (\<lambda>(loc_name, rel_type) s.
                     connect_person_to_location clk pn loc_name rel_type
                       (upsert_location clk loc_name s))
                    (resolved_locations pf ?lmap) st"
    unfolding st'[symmetric]
    by (simp add: connect_person_to_locations_def connect_locations_loop_fold)
  have seen: "\<forall>P \<in> set [person_pattern pn]. pat_ok R P \<and> has_match P st"
    using assms by (auto simp: pat_ok_def)
  have "ordered [person_pattern pn] ?ds"
    by (rule ordered_location_stmts) simp
  then have sat: "\<forall>d \<in> set ?ds. sat d ?st'"
    using seen ok location_stmts_compat by (rule run_sat)
  have 2: "\<forall>(field_key, rel_type) \<in> set ?lmap. \<forall>loc.
               clean_str (py_get pf field_key) = Some loc \<longrightarrow>
               has_match (location_pattern loc) ?st' \<and>
               (\<forall>a b. a < length (nodes ?st') \<and> matches (person_pattern pn) (nodes ?st' ! a) \<and>
                      b < length (nodes ?st') \<and> matches (location_pattern loc) (nodes ?st' ! b) \<longrightarrow>
                      list_ex (edge_matches a b rel_type) (edges ?st'))"
  proof (intro ballI, clarify)
    fix field_key rel_type loc
    assume m: "(field_key, rel_type) \<in> set ?lmap" and c: "clean_str (py_get pf field_key) = Some loc"
    from location_stmts_member[OF m c, of pn] sat
    have s: "sat (located_stmt pn loc rel_type) ?st'" by blast
    then have hm: "has_match (location_pattern loc) ?st'"
      by (simp add: located_stmt_def)
    have "list_ex (edge_matches a b rel_type) (edges ?st')"
      if "a < length (nodes ?st') \<and> matches (person_pattern pn) (nodes ?st' ! a) \<and>
          b < length (nodes ?st') \<and> matches (location_pattern loc) (nodes ?st' ! b)" for a b
    proof -
      from that have "(a, b) \<in> set (matched_pairs (person_pattern pn) (location_pattern loc) ?st')"
        by (simp add: matched_pairs_set in_match_ids)
      with s show ?thesis
        unfolding located_stmt_def by auto
    qed
    with hm show "has_match (location_pattern loc) ?st' \<and>
               (\<forall>a b. a < length (nodes ?st') \<and> matches (person_pattern pn) (nodes ?st' ! a) \<and>
                      b < length (nodes ?st') \<and> matches (location_pattern loc) (nodes ?st' ! b) \<longrightarrow>
                      list_ex (edge_matches a b rel_type) (edges ?st'))"
      by blast
  qed
  have 3: "\<forall>i. length (nodes st) \<le> i \<and> i < length (nodes ?st') \<longrightarrow>
               (\<exists>(field_key, rel_type) \<in> set ?lmap. \<exists>loc.
                  clean_str (py_get pf field_key) = Some loc \<and>
                  matches (location_pattern loc) (nodes ?st' ! i))"
  proof (intro allI impI)
    fix i
    assume "length (nodes st) \<le> i \<and> i < length (nodes ?st')"
    then have ge: "length (nodes st) \<le> i" and lt: "i < length (nodes ?st')" by simp_all
    from run_new_node[OF ok ge lt] obtain P cr ow fl where
      P: "NodeStmt P cr ow fl \<in> set ?ds" and l: "labels (nodes ?st' ! i) = fst P"
      and p: "\<forall>k \<in> set id_keys. props (nodes ?st' ! i) k = map_of (snd P) k"
      by blast
    from ok P have pok: "pat_ok R P" by auto
    from location_stmts_cases[OF P] obtain field_key rel_type loc where
      m: "(field_key, rel_type) \<in> set ?lmap" "clean_str (py_get pf field_key) = Some loc"
      and d: "NodeStmt P cr ow fl = location_stmt loc \<or>
              NodeStmt P cr ow fl = located_stmt pn loc rel_type"
      by blast
    from d have "P = location_pattern loc"
      by (auto simp: location_stmt_def located_stmt_def)
    with matches_from_ids[OF pok l p] have "matches (location_pattern loc) (nodes ?st' ! i)"
      by simp
    with m show "\<exists>(field_key, rel_type) \<in> set ?lmap. \<exists>loc.
                  clean_str (py_get pf field_key) = Some loc \<and>
                  matches (location_pattern loc) (nodes ?st' ! i)"
      by blast
  qed
  have 4: "\<forall>i. length (edges st) \<le> i \<and> i < length (edges ?st') \<longrightarrow>
               (\<exists>(field_key, rel_type) \<in> set ?lmap. \<exists>loc.
                  clean_str (py_get pf field_key) = Some loc \<and>
                  rtype (edges ?st' ! i) = rel_type \<and>
                  matches (person_pattern pn) (nodes ?st' ! src (edges ?st' ! i)) \<and>
                  matches (location_pattern loc) (nodes ?st' ! dst (edges ?st' ! i)))"
  proof (intro allI impI)
    fix i
    assume "length (edges st) \<le> i \<and> i < length (edges ?st')"
    then have ge: "length (edges st) \<le> i" and lt: "i < length (edges ?st')" by simp_all
    from run_new_edge[OF ok ge lt] obtain P1 P2 t cr touch where
      P: "RelStmt P1 P2 t cr touch \<in> set ?ds" and t: "rtype (edges ?st' ! i) = t"
      and ma: "matches P1 (nodes ?st' ! src (edges ?st' ! i))"
      and mb: "matches P2 (nodes ?st' ! dst (edges ?st' ! i))"
      by blast
    from location_stmts_cases[OF P] obtain field_key rel_type loc where
      m: "(field_key, rel_type) \<in> set ?lmap" "clean_str (py_get pf field_key) = Some loc"
      and d: "RelStmt P1 P2 t cr touch = location_stmt loc \<or>
              RelStmt P1 P2 t cr touch = located_stmt pn loc rel_type"
      by blast
    from d have "P1 = person_pattern pn \<and> P2 = location_pattern loc \<and> t = rel_type"
      by (auto simp: location_stmt_def located_stmt_def)
    with t ma mb m show "\<exists>(field_key, rel_type) \<in> set ?lmap. \<exists>loc.
                  clean_str (py_get pf field_key) = Some loc \<and>
                  rtype (edges ?st' ! i) = rel_type \<and>
                  matches (person_pattern pn) (nodes ?st' ! src (edges ?st' ! i)) \<and>
                  matches (location_pattern loc) (nodes ?st' ! dst (edges ?st' ! i))"
      by blast
  qed
  from 1 2 3 4 show ?thesis
    unfolding Let_def st' by blast
qed


theorem locations_follow_the_map_witness:
  "has_match (person_pattern ''Bob'') ex_graph_store \<and>
   (''departure_location'', ''DEPARTED_FROM'') \<in> set (LOCATION_REL_MAP ex_rules) \<and>
   clean_str (py_get [(''name'', ''Bob''), (''departure_location'', '' LHR'')]
     ''departure_location'') = Some ''LHR'' \<and>
   has_match (location_pattern ''LHR'')
     (connect_person_to_locations ex_rules ex_clock ''Bob''
        [(''name'', ''Bob''), (''departure_location'', '' LHR'')] ex_graph_store)"
proof -
  let ?pf = "[(''name'', ''Bob''), (''departure_location'', '' LHR'')]"
  have h: "has_match (person_pattern ''Bob'') ex_graph_store"
    by code_simp
  have m: "(''departure_location'', ''DEPARTED_FROM'') \<in> set (LOCATION_REL_MAP ex_rules)"
    by code_simp
  have c: "clean_str (py_get ?pf ''departure_location'') = Some ''LHR''"
    by code_simp
  from locations_follow_the_map[OF h, where R = ex_rules and clk = ex_clock and pf = ?pf]
  have "\<forall>(field_key, rel_type) \<in> set (LOCATION_REL_MAP ex_rules). \<forall>loc.
          clean_str (py_get ?pf field_key) = Some loc \<longrightarrow>
          has_match (location_pattern loc)
            (connect_person_to_locations ex_rules ex_clock ''Bob'' ?pf ex_graph_store)"
    unfolding Let_def by blast
  with m c have "has_match (location_pattern ''LHR'')
     (connect_person_to_locations ex_rules ex_clock ''Bob'' ?pf ex_graph_store)"
    by blast
  with h m c show ?thesis by blast
qed

text \<open>
  C8 as stated fails: from the text \<open>NAME: Bob; Departure:"<TAB>"\<close> the extraction stores a
  tab character, a value that is not empty, for the field \<open>departure_location\<close> of the
  location map; a person node for Bob is in the store; and yet
  \<open>connect_person_to_locations\<close> adds no node and no relationship, and no location is
  keyed by that value.
\<close>

theorem location_needs_trimmed_value_counterexample:
  "extract_fields ex_rules ex_search ex_tab_text =
     Inr [(''person'', [(''name'', ''Bob''), (''departure_location'', [CHR 0x09])]),
          (''organization'', [])] \<and>
   (''departure_location'', ''DEPARTED_FROM'') \<in> set (LOCATION_REL_MAP ex_rules) \<and>
   map_of [(''name'', ''Bob''), (''departure_location'', [CHR 0x09])] ''departure_location'' =
     Some [CHR 0x09] \<and>
   [CHR 0x09] \<noteq> [] \<and>
   has_match (person_pattern ''Bob'') ex_graph_store \<and>
   length (nodes (connect_person_to_locations ex_rules ex_clock ''Bob''
      [(''name'', ''Bob''), (''departure_location'', [CHR 0x09])] ex_graph_store)) =
     length (nodes ex_graph_store) \<and>
   edges (connect_person_to_locations ex_rules ex_clock ''Bob''
      [(''name'', ''Bob''), (''departure_location'', [CHR 0x09])] ex_graph_store) = [] \<and>
   \<not> has_match (location_pattern [CHR 0x09])
      (connect_person_to_locations ex_rules ex_clock ''Bob''
         [(''name'', ''Bob''), (''departure_location'', [CHR 0x09])] ex_graph_store)"
  by code_simp

section \<open>Uniqueness of the entity identity\<close>

lemma entity_key_cong:
  "labels n' = labels n \<Longrightarrow> props n' ''entity_type'' = props n ''entity_type'' \<Longrightarrow>
   props n' ''canonical_text'' = props n ''canonical_text'' \<Longrightarrow> entity_key n' = entity_key n"
  by (auto simp: entity_key_def split: option.splits)

lemma on_match_entity_key:
  assumes "\<forall>k \<in> set (''updated_at'' # id_keys). ow k = None \<and> fl k = None"
  shows "entity_key (n\<lparr>props := on_match_props ow fl now (props n)\<rparr>) = entity_key n"
  using assms
  by (intro entity_key_cong) (simp_all add: id_keys_def on_match_props_keep)

lemma on_match_matches:
  assumes "\<forall>k \<in> set (''updated_at'' # id_keys). ow k = None \<and> fl k = None"
    and "fst ` set (snd P) \<subseteq> set id_keys"
  shows "matches P (n\<lparr>props := on_match_props ow fl now (props n)\<rparr>) = matches P n"
proof (rule matches_cong)
  show "labels (n\<lparr>props := on_match_props ow fl now (props n)\<rparr>) = labels n" by simp
next
  fix k
  assume "k \<in> fst ` set (snd P)"
  with assms(2) have k: "k \<in> set id_keys" by blast
  then have "k \<noteq> ''updated_at''" by (auto simp: id_keys_def)
  with assms(1) k show "props (n\<lparr>props := on_match_props ow fl now (props n)\<rparr>) k = props n k"
    by (simp add: on_match_props_keep)
qed

lemma entity_pattern_keys:
  "fst ` set (snd (person_pattern name)) \<subseteq> set id_keys"
  "fst ` set (snd (org_pattern name)) \<subseteq> set id_keys"
  "fst ` set (snd (location_pattern name)) \<subseteq> set id_keys"
  by (simp_all add: person_pattern_def org_pattern_def location_pattern_def id_keys_def)

lemma on_match_keyed_ok:
  assumes "\<forall>k \<in> set (''updated_at'' # id_keys). ow k = None \<and> fl k = None"
  shows "keyed_ok (n\<lparr>props := on_match_props ow fl now (props n)\<rparr>) = keyed_ok n"
  unfolding keyed_ok_def on_match_entity_key[OF assms]
  by (auto simp: on_match_matches[OF assms] entity_pattern_keys split: option.splits)

lemma new_node_key:
  assumes "pat_ok R P" and "\<And>k. k \<in> set id_keys \<Longrightarrow> m k = map_of (snd P) k"
  shows "keyed_ok \<lparr>labels = fst P, props = m\<rparr>"
    and "entity_key \<lparr>labels = fst P, props = m\<rparr> = Some key \<Longrightarrow>
         entity_key n = Some key \<Longrightarrow> keyed_ok n \<Longrightarrow> matches P n"
proof -
  have m: "m ''entity_type'' = map_of (snd P) ''entity_type''"
    "m ''canonical_text'' = map_of (snd P) ''canonical_text''"
    using assms(2) by (simp_all add: id_keys_def)
  have mt: "matches P \<lparr>labels = fst P, props = m\<rparr>"
    using assms by (rule new_node_matches)
  from assms(1) consider
      (r) rid where "P = record_pattern R rid"
    | (p) name where "P = person_pattern name"
    | (o) name where "P = org_pattern name"
    | (l) name where "P = location_pattern name"
    unfolding pat_ok_def by blast
  then have "keyed_ok \<lparr>labels = fst P, props = m\<rparr> \<and>
     (entity_key \<lparr>labels = fst P, props = m\<rparr> = Some key \<longrightarrow>
        entity_key n = Some key \<longrightarrow> keyed_ok n \<longrightarrow> matches P n)"
  proof cases
    case r
    then have "entity_key \<lparr>labels = fst P, props = m\<rparr> = None"
      by (simp add: entity_key_def m record_pattern_def)
    then show ?thesis by (simp add: keyed_ok_def)
  next
    case p
    then have k: "entity_key \<lparr>labels = fst P, props = m\<rparr> = Some (Str ''PERSON'', Str name)"
      by (simp add: entity_key_def m person_pattern_def)
    with mt p show ?thesis
      by (auto simp: keyed_ok_def)
  next
    case o
    then have k: "entity_key \<lparr>labels = fst P, props = m\<rparr> = Some (Str ''ORG'', Str name)"
      by (simp add: entity_key_def m org_pattern_def)
    with mt o show ?thesis
      by (auto simp: keyed_ok_def)
  next
    case l
    then have k: "entity_key \<lparr>labels = fst P, props = m\<rparr> = Some (Str ''GPE'', Str name)"
      by (simp add: entity_key_def m location_pattern_def)
    with mt l show ?thesis
      by (auto simp: keyed_ok_def)
  qed
  then show "keyed_ok \<lparr>labels = fst P, props = m\<rparr>"
    and "entity_key \<lparr>labels = fst P, props = m\<rparr> = Some key \<Longrightarrow>
         entity_key n = Some key \<Longrightarrow> keyed_ok n \<Longrightarrow> matches P n"
    by blast+
qed

lemma map_filter_map_same:
  "(\<And>x. f (g x) = f x) \<Longrightarrow> List.map_filter f (map g xs) = List.map_filter f xs"
  by (induction xs) (simp_all add: map_filter_simps split: option.splits)

lemma map_filter_append:
  "List.map_filter f (xs @ ys) = List.map_filter f xs @ List.map_filter f ys"
  by (simp add: List.map_filter_def)

lemma in_map_filter: "k \<in> set (List.map_filter f xs) = (\<exists>x \<in> set xs. f x = Some k)"
  by (auto simp: List.map_filter_def intro!: image_eqI)

lemma exec_entity_inv:
  assumes ok: "stmt_ok R d" and inv: "entity_inv st"
  shows "entity_inv (exec d now st)"
proof (cases d)
  case (RelStmt P1 P2 t cr touch)
  with inv show ?thesis by (simp add: entity_inv_def entity_unique_def)
next
  case (NodeStmt P cr ow fl)
  let ?upd = "\<lambda>n. if matches P n then n\<lparr>props := on_match_props ow fl now (props n)\<rparr> else n"
  from ok NodeStmt have none: "\<forall>k \<in> set (''updated_at'' # id_keys). ow k = None \<and> fl k = None"
    and pP: "pat_ok R P" and cr: "\<And>k. k \<in> set id_keys \<Longrightarrow> cr now k = map_of (snd P) k"
    by simp_all
  have ek: "entity_key (?upd n) = entity_key n" for n
    by (simp add: on_match_entity_key[OF none])
  have ko: "keyed_ok (?upd n) = keyed_ok n" for n
    by (simp add: on_match_keyed_ok[OF none])
  have keys: "List.map_filter entity_key (map ?upd (nodes st)) = List.map_filter entity_key (nodes st)"
    by (rule map_filter_map_same) (rule ek)
  have c: "keyed_ok \<circ> ?upd = keyed_ok"
    by (rule ext) (simp only: o_apply ko)
  have oks: "list_all keyed_ok (map ?upd (nodes st))"
    unfolding list.pred_map c using inv by (simp add: entity_inv_def)
  show ?thesis
  proof (cases "has_match P st")
    case True
    with NodeStmt keys oks inv show ?thesis
      by (simp add: entity_inv_def entity_unique_def)
  next
    case False
    let ?new = "\<lparr>labels = fst P, props = cr now\<rparr>"
    have kn: "keyed_ok ?new"
      using pP cr by (rule new_node_key(1))
    have fresh: "key \<notin> set (List.map_filter entity_key (nodes st))"
      if "entity_key ?new = Some key" for key
    proof
      assume "key \<in> set (List.map_filter entity_key (nodes st))"
      then obtain n where n: "n \<in> set (nodes st)" "entity_key n = Some key"
        unfolding in_map_filter by blast
      with inv have "keyed_ok n" by (simp add: entity_inv_def list_all_iff)
      with new_node_key(2)[OF pP cr that n(2)] have "matches P n" by simp
      with n(1) False show False
        by (auto simp: has_match_def list_ex_iff)
    qed
    have "distinct (List.map_filter entity_key (map ?upd (nodes st) @ [?new]))"
      unfolding map_filter_append keys
      using inv fresh
      by (cases "entity_key ?new") (simp_all add: entity_inv_def entity_unique_def map_filter_simps)
    with False NodeStmt oks kn show ?thesis
      by (simp add: entity_inv_def entity_unique_def)
  qed
qed

lemma entity_inv_writes [simp]: "entity_inv (st\<lparr>writes := w\<rparr>) = entity_inv st"
  by (simp add: entity_inv_def entity_unique_def)

lemma run_entity_inv:
  "\<forall>d \<in> set ds. stmt_ok R d \<Longrightarrow> entity_inv st \<Longrightarrow> entity_inv (run clk ds st)"
proof (induction ds arbitrary: st)
  case Nil
  then show ?case by simp
next
  case (Cons d ds)
  from Cons.prems have "stmt_ok R d" by simp
  then have "entity_inv (exec d (clk (writes st)) st)"
    using Cons.prems(2) by (rule exec_entity_inv)
  then have "entity_inv (write_stmt clk (exec d) st)"
    by (simp add: write_stmt_def del: exec.simps)
  with Cons show ?case by simp
qed

lemma entity_inv_empty: "entity_inv empty_store"
  by (simp add: entity_inv_def entity_unique_def empty_store_def map_filter_simps)

lemma distinct_map_filter_nth:
  "distinct (List.map_filter f xs) \<Longrightarrow> i < length xs \<Longrightarrow> j < length xs \<Longrightarrow>
   f (xs ! i) = Some k \<Longrightarrow> f (xs ! j) = Some k \<Longrightarrow> i = j"
proof (induction xs arbitrary: i j)
  case Nil
  then show ?case by simp
next
  case (Cons x xs)
  have tail: "distinct (List.map_filter f xs)"
    using Cons.prems(1) by (cases "f x") (simp_all add: map_filter_simps)
  have notin: "k \<notin> set (List.map_filter f xs)" if "f x = Some k"
    using Cons.prems(1) that by (simp add: map_filter_simps)
  show ?case
  proof (cases i)
    case 0
    show ?thesis
    proof (cases j)
      case 0
      with \<open>i = 0\<close> show ?thesis by simp
    next
      case (Suc j')
      with Cons.prems 0 have "f x = Some k" "f (xs ! j') = Some k" "j' < length xs" by simp_all
      with notin show ?thesis
        unfolding in_map_filter by (metis nth_mem)
    qed
  next
    case (Suc i')
    show ?thesis
    proof (cases j)
      case 0
      with Cons.prems Suc have "f x = Some k" "f (xs ! i') = Some k" "i' < length xs" by simp_all
      with notin show ?thesis
        unfolding in_map_filter by (metis nth_mem)
    next
      case j: (Suc j')
      with Cons.prems Suc have "i' = j'"
        by (intro Cons.IH[OF tail]) simp_all
      with Suc j show ?thesis by simp
    qed
  qed
qed

lemma matches_person_key:
  "matches (person_pattern name) n \<Longrightarrow> entity_key n = Some (Str ''PERSON'', Str name)"
  by (simp add: matches_def node_matches_def person_pattern_def entity_key_def)

lemma rows_stmts_all:
  "rows_error R re_search rows = None \<Longrightarrow> row \<in> set rows \<Longrightarrow>
   set (row_stmts R re_search row) \<subseteq> set (rows_stmts R re_search rows)"
  by (induction rows) (auto split: option.splits)

text \<open>
  C3. In the store that processing any rows from the empty store leaves, whether the run
  ends normally or with an exception, no two entity nodes have the same pair of
  \<open>entity_type\<close> and \<open>canonical_text\<close>: the uniqueness constraint declared by
  \<open>ensure_schema\<close> holds. The pair is the whole merge key: when the run ends normally,
  every person name resolved from some row has exactly one person node, however many
  rows resolve it and whatever their other fields are.
\<close>

theorem entity_identity_is_unique:
  "let st = fst (main_loop R re_search clk rows empty_store);
       e = snd (main_loop R re_search clk rows empty_store)
   in entity_unique st \<and>
      (\<forall>i j key. i < length (nodes st) \<and> j < length (nodes st) \<and>
         entity_key (nodes st ! i) = Some key \<and> entity_key (nodes st ! j) = Some key \<longrightarrow> i = j) \<and>
      (\<forall>idx c description fs pn.
         e = None \<and> (idx, c) \<in> set rows \<and> clean_str c = Some description \<and>
         extract_fields R re_search description = Inr fs \<and>
         clean_str (py_get (get_group fs ''person'') ''name'') = Some pn \<longrightarrow>
         (\<exists>!i. i < length (nodes st) \<and> matches (person_pattern pn) (nodes st ! i)))"
proof -
  let ?ds = "rows_stmts R re_search rows"
  let ?st = "run clk ?ds empty_store"
  have ok: "\<forall>d \<in> set ?ds. stmt_ok R d"
    using rows_stmts_program program_stmt_ok by blast
  have inv: "entity_inv ?st"
    using ok entity_inv_empty by (rule run_entity_inv)
  then have 1: "entity_unique ?st" by (simp add: entity_inv_def)
  have 2: "i = j" if "i < length (nodes ?st)" "j < length (nodes ?st)"
    "entity_key (nodes ?st ! i) = Some key" "entity_key (nodes ?st ! j) = Some key" for i j key
    using 1 that unfolding entity_unique_def by (rule distinct_map_filter_nth)
  have 3: "\<exists>!i. i < length (nodes ?st) \<and> matches (person_pattern pn) (nodes ?st ! i)"
    if e: "rows_error R re_search rows = None" and row: "(idx, c) \<in> set rows"
      and c: "clean_str c = Some description"
      and x: "extract_fields R re_search description = Inr fs"
      and pn: "clean_str (py_get (get_group fs ''person'') ''name'') = Some pn"
    for idx c description fs pn
  proof -
    from pn have "person_stmt pn (get_group fs ''person'') \<in>
        set (row_stmts R re_search (idx, c))"
      unfolding row_stmts_resolved(1)[OF c x] by (simp add: entity_stmts_def)
    with rows_stmts_all[OF e row] have "person_stmt pn (get_group fs ''person'') \<in> set ?ds"
      by blast
    then have "has_match (person_pattern pn) ?st"
      unfolding person_stmt_def using ok by (rule run_node_stmt_has_match[rotated])
    then obtain i where i: "i < length (nodes ?st)" "matches (person_pattern pn) (nodes ?st ! i)"
      unfolding has_match_nth by blast
    show ?thesis
    proof (rule ex1I[of _ i])
      show "i < length (nodes ?st) \<and> matches (person_pattern pn) (nodes ?st ! i)"
        using i by simp
    next
      fix j
      assume "j < length (nodes ?st) \<and> matches (person_pattern pn) (nodes ?st ! j)"
      with i show "j = i"
        by (auto dest!: matches_person_key intro: 2)
    qed
  qed
  from 1 2 3 show ?thesis
    unfolding Let_def main_loop_run fst_conv snd_conv by blast
qed

theorem entity_identity_is_unique_witness:
  "snd (main_loop ex_rules ex_search ex_clock ex_two_rows empty_store) = None \<and>
   (0, Val ''NAME: Bob'') \<in> set ex_two_rows \<and>
   clean_str (Val ''NAME: Bob'') = Some ''NAME: Bob'' \<and>
   extract_fields ex_rules ex_search ''NAME: Bob'' =
     Inr [(''person'', [(''name'', ''Bob'')]), (''organization'', [])] \<and>
   extract_fields ex_rules ex_search ''name: Bob; DOB: 1980'' =
     Inr [(''person'', [(''name'', ''Bob''), (''dob'', ''1980'')]), (''organization'', [])] \<and>
   clean_str (py_get (get_group [(''person'', [(''name'', ''Bob'')]), (''organization'', [])]
     ''person'') ''name'') = Some ''Bob'' \<and>
   (\<exists>!i. i < length (nodes (fst (main_loop ex_rules ex_search ex_clock ex_two_rows empty_store))) \<and>
      matches (person_pattern ''Bob'')
        (nodes (fst (main_loop ex_rules ex_search ex_clock ex_two_rows empty_store)) ! i))"
proof -
  let ?fs = "[(''person'', [(''name'', ''Bob'')]), (''organization'', [])]"
  have e: "snd (main_loop ex_rules ex_search ex_clock ex_two_rows empty_store) = None"
    unfolding main_loop_run snd_conv by code_simp
  have r: "(0, Val ''NAME: Bob'') \<in> set ex_two_rows"
    by code_simp
  have c: "clean_str (Val ''NAME: Bob'') = Some ''NAME: Bob''"
    by code_simp
  have x: "extract_fields ex_rules ex_search ''NAME: Bob'' = Inr ?fs"
    by code_simp
  have x2: "extract_fields ex_rules ex_search ''name: Bob; DOB: 1980'' =
     Inr [(''person'', [(''name'', ''Bob''), (''dob'', ''1980'')]), (''organization'', [])]"
    by code_simp
  have p: "clean_str (py_get (get_group ?fs ''person'') ''name'') = Some ''Bob''"
    by code_simp
  from entity_identity_is_unique[where R = ex_rules and re_search = ex_search
      and clk = ex_clock and rows = ex_two_rows]
  have "\<forall>idx c description fs pn.
      snd (main_loop ex_rules ex_search ex_clock ex_two_rows empty_store) = None \<and>
      (idx, c) \<in> set ex_two_rows \<and> clean_str c = Some description \<and>
      extract_fields ex_rules ex_search description = Inr fs \<and>
      clean_str (py_get (get_group fs ''person'') ''name'') = Some pn \<longrightarrow>
      (\<exists>!i. i < length (nodes (fst (main_loop ex_rules ex_search ex_clock ex_two_rows empty_store))) \<and>
         matches (person_pattern pn)
           (nodes (fst (main_loop ex_rules ex_search ex_clock ex_two_rows empty_store)) ! i))"
    unfolding Let_def by blast
  with e r c x p have "\<exists>!i. i < length (nodes (fst (main_loop ex_rules ex_search ex_clock ex_two_rows empty_store))) \<and>
      matches (person_pattern ''Bob'')
        (nodes (fst (main_loop ex_rules ex_search ex_clock ex_two_rows empty_store)) ! i)"
    by blast
  with e r c x x2 p show ?thesis by blast
qed

end
